theory Spec2Isabelle
  imports
    Complex_Main
    "HOL-Library.Word"
    "HOL-Library.AList"
    "HOL-Library.Char_ord"
    "HOL-Library.List_Lexorder"
    "HOL-Library.Log_Nat"
begin

section \<open>Time\<close>

text \<open>
  A \<open>time.Time\<close> is an absolute instant; it is modelled as the integer count of
  nanoseconds from a fixed epoch. Every instant the reminder code compares against the
  clock is derived from an event's \<open>ScheduledStartTime\<close>, which carries no monotonic
  reading, so \<open>Before\<close> and \<open>After\<close> compare wall-clock instants. A \<open>time.Duration\<close> is
  a signed 64-bit count of nanoseconds; negation wraps as in Go.
\<close>

type_synonym Time = int
type_synonym Duration = "64 word"

definition Before :: "Time \<Rightarrow> Time \<Rightarrow> bool" where
  "Before t u = (t < u)"

definition After :: "Time \<Rightarrow> Time \<Rightarrow> bool" where
  "After t u = (u < t)"

definition Add :: "Time \<Rightarrow> Duration \<Rightarrow> Time" where
  "Add t d = t + sint d"

section \<open>Events, reminders and the reminder store\<close>

datatype GuildScheduledEventStatus =
  StatusScheduled | StatusActive | StatusCompleted | StatusCanceled | StatusUnknown int

record GuildScheduledEvent =
  ID :: string
  GuildID :: string
  Name :: string
  ScheduledStartTime :: Time
  Status :: GuildScheduledEventStatus

record Reminder =
  EventID :: string
  EventName :: string
  EventURL :: string
  StartTime :: Time
  RemindAt :: Time
  Now :: bool

text \<open>
  The package-level \<open>store\<close> holds the slice \<open>Pending\<close>; every operation below takes
  the slice and returns the new one. Three functions of the source take the store's
  lock, each from its first read to its last write: \<open>removeRemindersForEvent\<close>,
  \<open>queueReminders\<close> and one tick of \<open>reminderWorker\<close>. Each of them is one atomic
  step; the lock is released between two of them.
\<close>

type_synonym ReminderStore = "Reminder list"

definition eventURL :: "GuildScheduledEvent \<Rightarrow> string" where
  "eventURL event = ''https://discord.com/events/'' @ GuildID event @ ''/'' @ ID event"

text \<open>\<open>removeRemindersForEvent\<close>: keeps the reminders of every other event, in order.\<close>

fun removeLoop :: "string \<Rightarrow> Reminder list \<Rightarrow> Reminder list \<Rightarrow> Reminder list" where
  "removeLoop eventID [] updatedList = updatedList"
| "removeLoop eventID (r # rs) updatedList =
     (if EventID r \<noteq> eventID then removeLoop eventID rs (updatedList @ [r])
      else removeLoop eventID rs updatedList)"

definition removeRemindersForEvent :: "string \<Rightarrow> ReminderStore \<Rightarrow> ReminderStore" where
  "removeRemindersForEvent eventID pending = removeLoop eventID pending []"

text \<open>
  \<open>queueReminders\<close>. The source reads \<open>time.Now()\<close> afresh at every \<open>Before\<close> check:
  once per configured offset and once more for the start time itself. The readings are
  the function \<open>clock\<close>: \<open>clock k\<close> is the instant read by check number \<open>k\<close> of this
  call (the offsets are checks \<open>0, 1, ...\<close>, the start time is the check after the last
  offset). The log lines written by the source do not touch the store and are left out.
\<close>

definition offsetReminder :: "GuildScheduledEvent \<Rightarrow> Duration \<Rightarrow> Reminder" where
  "offsetReminder event offset =
     \<lparr>EventID = ID event, EventName = Name event, EventURL = eventURL event,
      StartTime = ScheduledStartTime event,
      RemindAt = Add (ScheduledStartTime event) (- offset), Now = False\<rparr>"

definition startReminder :: "GuildScheduledEvent \<Rightarrow> Reminder" where
  "startReminder event =
     \<lparr>EventID = ID event, EventName = Name event, EventURL = eventURL event,
      StartTime = ScheduledStartTime event,
      RemindAt = ScheduledStartTime event, Now = True\<rparr>"

fun queueLoop ::
  "(nat \<Rightarrow> Time) \<Rightarrow> nat \<Rightarrow> GuildScheduledEvent \<Rightarrow> Duration list \<Rightarrow> ReminderStore \<Rightarrow> ReminderStore"
where
  "queueLoop clock k event [] pending = pending"
| "queueLoop clock k event (offset # offsets) pending =
     (let remindTime = Add (ScheduledStartTime event) (- offset) in
      if Before (clock k) remindTime
      then queueLoop clock (Suc k) event offsets (pending @ [offsetReminder event offset])
      else queueLoop clock (Suc k) event offsets pending)"

definition queueReminders ::
  "Duration list \<Rightarrow> (nat \<Rightarrow> Time) \<Rightarrow> GuildScheduledEvent \<Rightarrow> ReminderStore \<Rightarrow> ReminderStore"
where
  "queueReminders ReminderOffsets clock event pending =
     (let pending1 = queueLoop clock 0 event ReminderOffsets pending in
      if Before (clock (length ReminderOffsets)) (ScheduledStartTime event)
      then pending1 @ [startReminder event]
      else pending1)"

text \<open>
  One tick of \<open>reminderWorker\<close>: \<open>now\<close> is read once, every pending reminder is either
  rendered and handed to \<open>ChannelMessageSend\<close> or appended to \<open>remaining\<close>, and
  \<open>remaining\<close> replaces the store. The result of the send is ignored by the source.
  The tick returns the reminders handed to the sender, in order, and the new store; the
  text of the message (a function of the reminder and of the display time zone) is not
  modelled.
\<close>

fun workerLoop ::
  "Time \<Rightarrow> Reminder list \<Rightarrow> Reminder list \<Rightarrow> Reminder list \<Rightarrow> Reminder list \<times> Reminder list"
where
  "workerLoop now [] sent remaining = (sent, remaining)"
| "workerLoop now (r # rs) sent remaining =
     (if After now (RemindAt r) then workerLoop now rs (sent @ [r]) remaining
      else workerLoop now rs sent (remaining @ [r]))"

definition reminderTick :: "Time \<Rightarrow> ReminderStore \<Rightarrow> Reminder list \<times> ReminderStore" where
  "reminderTick now pending = workerLoop now pending [] []"

text \<open>
  The gateway handlers. \<open>createRemindersForEvent\<close> posts the announcement and queues the
  reminders; \<open>updateRemindersForEvent\<close> only logs unless the status is "scheduled", and
  otherwise purges the event's reminders and queues them again.
  \<open>syncExistingEvents\<close> walks the guilds, skips a guild whose event query failed, and
  queues the reminders of every event found; each event comes with the clock readings
  of its own \<open>queueReminders\<close> call. The three functions below give what a handler
  does to the store when no other goroutine's store operation falls between its own.
\<close>

definition createMessage :: "GuildScheduledEvent \<Rightarrow> string" where
  "createMessage event =
     ''**Neues Event wurde erstellt** '' @ [CHR 0x0A, CHR 0x0A] @ ''@everyone''
       @ [CHR 0x0A, CHR 0x0A] @ eventURL event"

definition createRemindersForEvent ::
  "Duration list \<Rightarrow> (nat \<Rightarrow> Time) \<Rightarrow> GuildScheduledEvent \<Rightarrow> ReminderStore
     \<Rightarrow> string \<times> ReminderStore"
where
  "createRemindersForEvent ReminderOffsets clock event pending =
     (createMessage event, queueReminders ReminderOffsets clock event pending)"

definition updateRemindersForEvent ::
  "Duration list \<Rightarrow> (nat \<Rightarrow> Time) \<Rightarrow> GuildScheduledEvent \<Rightarrow> ReminderStore \<Rightarrow> ReminderStore"
where
  "updateRemindersForEvent ReminderOffsets clock e pending =
     (if Status e \<noteq> StatusScheduled then pending
      else queueReminders ReminderOffsets clock e (removeRemindersForEvent (ID e) pending))"

fun syncEvents ::
  "Duration list \<Rightarrow> ((nat \<Rightarrow> Time) \<times> GuildScheduledEvent) list \<Rightarrow> ReminderStore \<Rightarrow> ReminderStore"
where
  "syncEvents ReminderOffsets [] pending = pending"
| "syncEvents ReminderOffsets ((clock, event) # events) pending =
     syncEvents ReminderOffsets events (queueReminders ReminderOffsets clock event pending)"

fun syncExistingEvents ::
  "Duration list \<Rightarrow> (string + ((nat \<Rightarrow> Time) \<times> GuildScheduledEvent) list) list
     \<Rightarrow> ReminderStore \<Rightarrow> ReminderStore"
where
  "syncExistingEvents ReminderOffsets [] pending = pending"
| "syncExistingEvents ReminderOffsets (Inl err # guilds) pending =
     syncExistingEvents ReminderOffsets guilds pending"
| "syncExistingEvents ReminderOffsets (Inr events # guilds) pending =
     syncExistingEvents ReminderOffsets guilds (syncEvents ReminderOffsets events pending)"

text \<open>
  The handlers, the startup reconciliation and the scheduler run on different
  goroutines (the gateway library starts a goroutine for every notification it hands
  to a handler), and the lock is held for one store operation at a time. What the store
  sees is therefore a sequence of store operations, in which the operations of
  different handlers may alternate: \<open>updateRemindersForEvent\<close> contributes its purge
  and then its derivation, with any operation of another goroutine possibly between
  the two.
\<close>

datatype StoreOp =
  OpRemove string
| OpQueue "nat \<Rightarrow> Time" GuildScheduledEvent
| OpTick Time

fun step :: "Duration list \<Rightarrow> ReminderStore \<Rightarrow> StoreOp \<Rightarrow> ReminderStore" where
  "step ReminderOffsets pending (OpRemove eventID) = removeRemindersForEvent eventID pending"
| "step ReminderOffsets pending (OpQueue clock event) =
     queueReminders ReminderOffsets clock event pending"
| "step ReminderOffsets pending (OpTick now) = snd (reminderTick now pending)"

text \<open>The store operations of each handler, in the order the handler makes them.\<close>

definition createOps :: "(nat \<Rightarrow> Time) \<Rightarrow> GuildScheduledEvent \<Rightarrow> StoreOp list" where
  "createOps clock event = [OpQueue clock event]"

definition updateOps :: "(nat \<Rightarrow> Time) \<Rightarrow> GuildScheduledEvent \<Rightarrow> StoreOp list" where
  "updateOps clock e =
     (if Status e \<noteq> StatusScheduled then [] else [OpRemove (ID e), OpQueue clock e])"

fun syncOps ::
  "(string + ((nat \<Rightarrow> Time) \<times> GuildScheduledEvent) list) list \<Rightarrow> StoreOp list"
where
  "syncOps [] = []"
| "syncOps (Inl err # guilds) = syncOps guilds"
| "syncOps (Inr events # guilds) =
     map (\<lambda>(clock, event). OpQueue clock event) events @ syncOps guilds"

section \<open>Presence diff\<close>

text \<open>
  A snapshot generation is a Go map from server name to \<open>ServerInfo\<close>. Go leaves the
  order in which \<open>range\<close> visits a map unspecified, and the order can differ from one
  loop to the next. A generation is therefore given as the list of its entries in the
  order the loop at hand visits them: any order of the entries is a possible run.
\<close>

record ServerInfo =
  ServerName :: string
  Players :: "string list"
  Reachable :: bool

type_synonym Generation = "(string \<times> ServerInfo) list"

record ConfigDiscord =
  ChannelIDStatus :: string
  CachePath :: string
  ShowJoinLeave :: bool
  PinPlayerList :: bool

text \<open>
  The two outbound calls of the diff: \<open>sendNotifyMessage server player joined\<close> and
  \<open>sendMoveMessage player oldserver newserver\<close>. A failed send is only logged.
\<close>

datatype PresenceEvent =
  NotifyMessage string string bool
| MoveMessage string string string

text \<open>
  \<open>prevPlayerServer\<close> and \<open>currPlayerServer\<close> are Go maps from player to server. A map
  is an association list with distinct keys: \<open>m[k] = v\<close> is \<open>AList.update k v m\<close>, a
  lookup is \<open>map_of m k\<close>. The emitting loops visit every key of a map once; the model
  visits them in the order of the list, and another order permutes the emitted events.
\<close>

type_synonym PlayerServer = "(string \<times> string) list"

fun indexPlayers :: "string \<Rightarrow> string list \<Rightarrow> PlayerServer \<Rightarrow> PlayerServer" where
  "indexPlayers server [] playerServer = playerServer"
| "indexPlayers server (player # players) playerServer =
     indexPlayers server players (AList.update player server playerServer)"

fun indexServers :: "Generation \<Rightarrow> PlayerServer \<Rightarrow> PlayerServer" where
  "indexServers [] playerServer = playerServer"
| "indexServers ((server, info) # infos) playerServer =
     indexServers infos (indexPlayers server (Players info) playerServer)"

fun detectJoinsMoves :: "PlayerServer \<Rightarrow> PlayerServer \<Rightarrow> PresenceEvent list" where
  "detectJoinsMoves prevPlayerServer [] = []"
| "detectJoinsMoves prevPlayerServer ((player, newServer) # rest) =
     (case map_of prevPlayerServer player of
        None \<Rightarrow> [NotifyMessage newServer player True]
      | Some oldServer \<Rightarrow>
          if oldServer \<noteq> newServer then [MoveMessage player oldServer newServer] else [])
     @ detectJoinsMoves prevPlayerServer rest"

fun detectLeaves :: "PlayerServer \<Rightarrow> PlayerServer \<Rightarrow> PresenceEvent list" where
  "detectLeaves currPlayerServer [] = []"
| "detectLeaves currPlayerServer ((player, oldServer) # rest) =
     (case map_of currPlayerServer player of
        None \<Rightarrow> [NotifyMessage oldServer player False]
      | Some stillOnline \<Rightarrow> [])
     @ detectLeaves currPlayerServer rest"

text \<open>
  The diff of \<open>Start\<close>'s consumer loop. \<open>lastInfos\<close> is \<open>None\<close> (Go's nil map) before
  the first snapshot.
\<close>

definition presenceDiff ::
  "ConfigDiscord \<Rightarrow> Generation option \<Rightarrow> Generation \<Rightarrow> PresenceEvent list"
where
  "presenceDiff cfg lastInfos ifos =
     (if ShowJoinLeave cfg then
        (let prevPlayerServer =
               (case lastInfos of None \<Rightarrow> [] | Some infos \<Rightarrow> indexServers infos []);
             currPlayerServer = indexServers ifos []
         in detectJoinsMoves prevPlayerServer currPlayerServer
            @ detectLeaves currPlayerServer prevPlayerServer)
      else [])"

section \<open>Status publisher\<close>

record MessageEmbed =
  Title :: string
  Description :: string
  Color :: int

record MessageSend =
  Content :: string
  Embeds :: "MessageEmbed list"

record MessageEdit =
  EditID :: string
  EditChannel :: string
  EditContent :: string
  EditEmbeds :: "MessageEmbed list"

text \<open>
  A channel message as the publisher reads it: its identifier, the identifier of its
  author (\<open>None\<close> when \<open>Author\<close> is nil) and its text.
\<close>

record Message =
  MsgID :: string
  MsgAuthor :: "string option"
  MsgContent :: string

fun HasPrefix :: "string \<Rightarrow> string \<Rightarrow> bool" where
  "HasPrefix s [] = True"
| "HasPrefix [] (p # ps) = False"
| "HasPrefix (c # s) (p # ps) = (c = p \<and> HasPrefix s ps)"

fun Contains :: "string \<Rightarrow> string \<Rightarrow> bool" where
  "Contains [] substr = (substr = [])"
| "Contains (c # s) substr = (HasPrefix (c # s) substr \<or> Contains s substr)"

fun Join :: "string list \<Rightarrow> string \<Rightarrow> string" where
  "Join [] sep = []"
| "Join [x] sep = x"
| "Join (x # y # ys) sep = x @ sep @ Join (y # ys) sep"

text \<open>
  The payload: one embed per server, in the order of the sorted server names
  (\<open>sort.Strings\<close> orders strings bytewise, as the lexicographic order on character
  lists does).
\<close>

definition serverEmbed :: "string \<Rightarrow> ServerInfo \<Rightarrow> MessageEmbed" where
  "serverEmbed serverName serverInfo =
     (let playerlist0 = ''No players online'';
          color0 = 0x57F287;
          playerlist1 =
            (if length (Players serverInfo) > 0
             then Join (map (\<lambda>player. ''- '' @ player) (Players serverInfo)) [CHR 0x0A]
             else playerlist0);
          color = (if \<not> Reachable serverInfo then 0xc1121f else color0);
          playerlist = (if \<not> Reachable serverInfo then ''Server unreachable'' else playerlist1)
      in \<lparr>Title = serverName, Description = playerlist, Color = color\<rparr>)"

fun serverEmbeds :: "Generation \<Rightarrow> string list \<Rightarrow> MessageEmbed list" where
  "serverEmbeds serverStatusMap [] = []"
| "serverEmbeds serverStatusMap (serverName # keys) =
     (case map_of serverStatusMap serverName of
        Some serverInfo \<Rightarrow> serverEmbed serverName serverInfo # serverEmbeds serverStatusMap keys
      | None \<Rightarrow> serverEmbeds serverStatusMap keys)"

definition statusPayload :: "Generation \<Rightarrow> MessageSend" where
  "statusPayload serverStatusMap =
     \<lparr>Content = ''# Online players'',
      Embeds = serverEmbeds serverStatusMap (sort (map fst serverStatusMap))\<rparr>"

text \<open>
  The Discord session as one publish sees it: each REST call of the source is made at
  most once per publish, so the service is the function from a call to its result. An
  error is its text (\<open>%s\<close> of the Go error); a call that succeeds returns a message.
  The publisher returns, with its result, the calls it made, in order.
\<close>

record Session =
  ChannelMessage :: "string \<Rightarrow> string \<Rightarrow> string + Message"
  ChannelMessages :: "string \<Rightarrow> nat \<Rightarrow> string + Message list"
  ChannelMessageEditComplex :: "MessageEdit \<Rightarrow> string + Message"
  ChannelMessageSendComplex :: "string \<Rightarrow> MessageSend \<Rightarrow> string + Message"
  ChannelMessagePin :: "string \<Rightarrow> string \<Rightarrow> string option"

datatype Call =
  CallChannelMessage string string
| CallChannelMessages string nat
| CallChannelMessageEditComplex MessageEdit
| CallChannelMessageSendComplex string MessageSend
| CallChannelMessagePin string string

definition isStatusMessage :: "string \<Rightarrow> Message \<Rightarrow> bool" where
  "isStatusMessage userID m =
     (MsgAuthor m \<noteq> None \<and> MsgAuthor m = Some userID \<and> Contains (MsgContent m) ''Online players'')"

fun firstStatusMessage :: "string \<Rightarrow> Message list \<Rightarrow> Message option" where
  "firstStatusMessage userID [] = None"
| "firstStatusMessage userID (m # msgs) =
     (if isStatusMessage userID m then Some m else firstStatusMessage userID msgs)"

definition fetchExistingMessage ::
  "ConfigDiscord \<Rightarrow> Session \<Rightarrow> string \<Rightarrow> string \<Rightarrow> Call list \<times> (string + Message option)"
where
  "fetchExistingMessage cfg session userID existingMessageId =
     (if length existingMessageId > 0 then
        ([CallChannelMessage (ChannelIDStatus cfg) existingMessageId],
         (case ChannelMessage session (ChannelIDStatus cfg) existingMessageId of
            Inl err \<Rightarrow> Inl err
          | Inr m \<Rightarrow> Inr (Some m)))
      else
        ([CallChannelMessages (ChannelIDStatus cfg) 100],
         (case ChannelMessages session (ChannelIDStatus cfg) 100 of
            Inl err \<Rightarrow> Inl err
          | Inr msgs \<Rightarrow> Inr (firstStatusMessage userID msgs))))"

definition pinAndReturn ::
  "ConfigDiscord \<Rightarrow> Session \<Rightarrow> Call list \<Rightarrow> Message \<Rightarrow> Call list \<times> string \<times> string option"
where
  "pinAndReturn cfg session calls theMessage =
     (if PinPlayerList cfg then
        (case ChannelMessagePin session (ChannelIDStatus cfg) (MsgID theMessage) of
           Some err \<Rightarrow>
             (calls @ [CallChannelMessagePin (ChannelIDStatus cfg) (MsgID theMessage)],
              [], Some (''ChannelMessagePin: '' @ err))
         | None \<Rightarrow>
             (calls @ [CallChannelMessagePin (ChannelIDStatus cfg) (MsgID theMessage)],
              MsgID theMessage, None))
      else (calls, MsgID theMessage, None))"

definition updatePlayerList ::
  "ConfigDiscord \<Rightarrow> Session \<Rightarrow> string \<Rightarrow> string \<Rightarrow> Generation
     \<Rightarrow> Call list \<times> string \<times> string option"
where
  "updatePlayerList cfg session userID existingMessageId serverStatusMap =
     (let payload = statusPayload serverStatusMap;
          (calls, fetched) = fetchExistingMessage cfg session userID existingMessageId
      in case fetched of
           Inl err \<Rightarrow> (calls, [], Some (''fetchExistingMessage: '' @ err))
         | Inr (Some theMessage) \<Rightarrow>
             (let edit = \<lparr>EditID = MsgID theMessage, EditChannel = ChannelIDStatus cfg,
                          EditContent = Content payload, EditEmbeds = Embeds payload\<rparr>
              in case ChannelMessageEditComplex session edit of
                   Inl err \<Rightarrow>
                     (calls @ [CallChannelMessageEditComplex edit],
                      [], Some (''ChannelMessageEditComplex: '' @ err))
                 | Inr edited \<Rightarrow>
                     pinAndReturn cfg session (calls @ [CallChannelMessageEditComplex edit]) edited)
         | Inr None \<Rightarrow>
             (case ChannelMessageSendComplex session (ChannelIDStatus cfg) payload of
                Inl err \<Rightarrow>
                  (calls @ [CallChannelMessageSendComplex (ChannelIDStatus cfg) payload],
                   [], Some (''ChannelMessageSendComplex: '' @ err))
              | Inr sent \<Rightarrow>
                  pinAndReturn cfg session
                    (calls @ [CallChannelMessageSendComplex (ChannelIDStatus cfg) payload]) sent))"

section \<open>Startup and the consumer loop\<close>





record LoopState =
  loopUserID :: string
  loopMessageId :: string
  loopLastInfos :: "Generation option"


text \<open>
  The variables of \<open>Start\<close> that live across rounds of its loop are the fields of
  \<open>LoopState\<close>: \<open>bot.userID\<close>, \<open>existingMessageId\<close> and \<open>lastInfos\<close>.
  One round of the consumer loop, for one snapshot \<open>ifos\<close> taken from the channel: the
  publish, the write of the returned identifier to the cache file (its failure is only
  logged), the diff against \<open>lastInfos\<close>, and the copy of the snapshot into
  \<open>lastInfos\<close>. The round returns the calls of the publish, the identifier written,
  the presence events and the next state. The list kept in \<open>lastInfos\<close> stands for
  the order in which the next round's diff visits the copied map.
\<close>

definition startRound ::
  "ConfigDiscord \<Rightarrow> Session \<Rightarrow> LoopState \<Rightarrow> Generation
     \<Rightarrow> (Call list \<times> string \<times> PresenceEvent list) \<times> LoopState"
where
  "startRound cfg session st ifos =
     (let (calls, msgId, err) =
            updatePlayerList cfg session (loopUserID st) (loopMessageId st) ifos;
          events = presenceDiff cfg (loopLastInfos st) ifos
      in ((calls, msgId, events),
          st\<lparr>loopMessageId := msgId, loopLastInfos := Some ifos\<rparr>))"



section \<open>Duration formatting\<close>

text \<open>
  \<open>FormatDuration\<close> takes its minute and hour counts from \<open>Duration.Minutes\<close> and
  \<open>Duration.Hours\<close> of Go's \<open>time\<close> package, which compute in \<open>float64\<close>:
  \<^verbatim>\<open>
  func (d Duration) Hours() float64 {
      hour := d / Hour
      nsec := d % Hour
      return float64(hour) + float64(nsec)/(60*60*1e9)
  }
  \<close>
  and likewise \<open>Minutes\<close> with \<open>Minute\<close> and \<open>60*1e9\<close>. A \<open>float64\<close> value is the
  rational number it denotes. \<open>float64\<close> below rounds a rational to the nearest number
  with a 53-bit significand, ties to the even significand, as IEEE 754 arithmetic does
  after every operation; the exponent range is not modelled (every value met here lies
  between \<open>2 ^ - 42\<close> and \<open>2 ^ 63\<close>).
\<close>

definition goDiv :: "int \<Rightarrow> int \<Rightarrow> int" where
  "goDiv a b = sgn a * sgn b * (\<bar>a\<bar> div \<bar>b\<bar>)"

definition goMod :: "int \<Rightarrow> int \<Rightarrow> int" where
  "goMod a b = a - b * goDiv a b"

definition roundEven :: "rat \<Rightarrow> int" where
  "roundEven x =
     (let f = \<lfloor>x\<rfloor>; r = x - of_int f in
      if r < 1 / 2 then f else if 1 / 2 < r then f + 1 else if even f then f else f + 1)"

text \<open>The exponent of a positive rational: \<open>2 powi ilog2 x \<le> x < 2 powi (ilog2 x + 1)\<close>.\<close>

definition ilog2 :: "rat \<Rightarrow> int" where
  "ilog2 x =
     (let (a, b) = quotient_of x; e = bitlen a - bitlen b in
      if 2 powi e \<le> x then e else e - 1)"

definition float64 :: "rat \<Rightarrow> rat" where
  "float64 x =
     (if x = 0 then 0
      else (let ulp = 2 powi (ilog2 \<bar>x\<bar> - 52) in sgn x * of_int (roundEven (\<bar>x\<bar> / ulp)) * ulp))"

text \<open>The conversion \<open>int(f)\<close> of a \<open>float64\<close> discards the fraction.\<close>

definition truncInt :: "rat \<Rightarrow> int" where
  "truncInt f = (if 0 \<le> f then \<lfloor>f\<rfloor> else \<lceil>f\<rceil>)"

definition Minute :: int where
  "Minute = 60 * 1000000000"

definition Hour :: int where
  "Hour = 60 * Minute"

definition Minutes :: "Duration \<Rightarrow> rat" where
  "Minutes d =
     (let min = goDiv (sint d) Minute; nsec = goMod (sint d) Minute in
      float64 (float64 (of_int min) + float64 (float64 (of_int nsec) / (60 * 1000000000))))"

definition Hours :: "Duration \<Rightarrow> rat" where
  "Hours d =
     (let hour = goDiv (sint d) Hour; nsec = goMod (sint d) Hour in
      float64 (float64 (of_int hour) + float64 (float64 (of_int nsec) / (60 * 60 * 1000000000))))"

text \<open>\<open>%d\<close> of \<open>fmt.Sprintf\<close>: the decimal digits, with a minus sign below zero.\<close>

fun showNat :: "nat \<Rightarrow> string" where
  "showNat n =
     (if n < 10 then [char_of (48 + n)] else showNat (n div 10) @ [char_of (48 + n mod 10)])"

definition showInt :: "int \<Rightarrow> string" where
  "showInt i = (if i < 0 then CHR ''-'' # showNat (nat (- i)) else showNat (nat i))"

type_synonym Language = int

definition English :: Language where
  "English = 0"

definition German :: Language where
  "German = 1"

record unit =
  singular :: string
  plural :: string

definition units :: "(Language \<times> (string \<times> unit) list) list" where
  "units =
     [(English,
        [(''day'', \<lparr>singular = ''day'', plural = ''days''\<rparr>),
         (''hour'', \<lparr>singular = ''hour'', plural = ''hours''\<rparr>),
         (''minute'', \<lparr>singular = ''minute'', plural = ''minutes''\<rparr>)]),
      (German,
        [(''day'', \<lparr>singular = ''Tag'', plural = ''Tage''\<rparr>),
         (''hour'', \<lparr>singular = ''Stunde'', plural = ''Stunden''\<rparr>),
         (''minute'', \<lparr>singular = ''Minute'', plural = ''Minuten''\<rparr>)])]"

text \<open>Indexing a Go map with a key it does not hold gives the zero value.\<close>

definition unitAt :: "(string \<times> unit) list \<Rightarrow> string \<Rightarrow> unit" where
  "unitAt u key = (case map_of u key of Some x \<Rightarrow> x | None \<Rightarrow> \<lparr>singular = [], plural = []\<rparr>)"

definition pluralize :: "int \<Rightarrow> unit \<Rightarrow> string" where
  "pluralize count u = (if count = 1 then singular u else plural u)"

definition FormatDuration :: "Duration \<Rightarrow> Language \<Rightarrow> string" where
  "FormatDuration d lang =
     (if sint d < 0 then []
      else
        (let u = (case map_of units lang of
                    Some table \<Rightarrow> table
                  | None \<Rightarrow> (case map_of units English of Some table \<Rightarrow> table | None \<Rightarrow> []));
             totalMinutes = truncInt (Minutes d);
             totalHours = truncInt (Hours d);
             days = goDiv totalHours 24;
             hours = goMod totalHours 24;
             minutes = goMod totalMinutes 60
         in if days \<ge> 1 then
              (if hours = 0 then showInt days @ '' '' @ pluralize days (unitAt u ''day'')
               else showInt days @ '' '' @ pluralize days (unitAt u ''day'') @ '' ''
                      @ showInt hours @ '' '' @ pluralize hours (unitAt u ''hour''))
            else if totalHours \<ge> 1 then
              (if minutes = 0
               then showInt totalHours @ '' '' @ pluralize totalHours (unitAt u ''hour'')
               else showInt totalHours @ '' '' @ pluralize totalHours (unitAt u ''hour'') @ '' ''
                      @ showInt minutes @ '' '' @ pluralize minutes (unitAt u ''minute''))
            else showInt totalMinutes @ '' '' @ pluralize totalMinutes (unitAt u ''minute'')))"

section \<open>Notions used to state the properties\<close>

subsection \<open>Reminders\<close>

text \<open>
  The reminder set of an event in the words of the specification: for each configured
  offset, in order, a reminder at the start time less the offset when that instant is
  strictly after the instant read by the offset's check, and then one "starting now"
  reminder at the start time when the start time is strictly after the instant read by
  the last check.
\<close>

definition derivedReminders ::
  "Duration list \<Rightarrow> (nat \<Rightarrow> Time) \<Rightarrow> GuildScheduledEvent \<Rightarrow> Reminder list"
where
  "derivedReminders offsets clock event =
     map (offsetReminder event)
       (map snd
          (filter (\<lambda>(k, offset). clock k < Add (ScheduledStartTime event) (- offset))
             (enumerate 0 offsets)))
     @ (if clock (length offsets) < ScheduledStartTime event then [startReminder event] else [])"

text \<open>A clock that reads the same instant at every check.\<close>

definition frozenClock :: "Time \<Rightarrow> nat \<Rightarrow> Time" where
  "frozenClock t k = t"

text \<open>At most one reminder per pair of event and firing instant.\<close>

definition uniquePairs :: "ReminderStore \<Rightarrow> bool" where
  "uniquePairs pending = distinct (map (\<lambda>r. (EventID r, RemindAt r)) pending)"

definition hasReminder :: "ReminderStore \<Rightarrow> string \<Rightarrow> bool" where
  "hasReminder pending eventID = (eventID \<in> set (map EventID pending))"

text \<open>
  A run is a sequence of store operations applied to the empty store: every execution
  of the handlers, the reconciliation and the scheduler, however their goroutines
  alternate, is one.
\<close>

definition run :: "Duration list \<Rightarrow> StoreOp list \<Rightarrow> ReminderStore" where
  "run offsets ops = foldl (step offsets) [] ops"

text \<open>
  A store operation is admissible in a store when it does not derive reminders for an
  event that already has one there. Purges and ticks are always admissible. A run is
  admissible when each of its operations is, in the store it meets.
\<close>

fun admissible :: "ReminderStore \<Rightarrow> StoreOp \<Rightarrow> bool" where
  "admissible pending (OpRemove eventID) = True"
| "admissible pending (OpQueue clock event) = (\<not> hasReminder pending (ID event))"
| "admissible pending (OpTick now) = True"

fun admissibleRun :: "Duration list \<Rightarrow> ReminderStore \<Rightarrow> StoreOp list \<Rightarrow> bool" where
  "admissibleRun offsets pending [] = True"
| "admissibleRun offsets pending (op # ops) =
     (admissible pending op \<and> admissibleRun offsets (step offsets pending op) ops)"

fun guildEntries ::
  "(string + ((nat \<Rightarrow> Time) \<times> GuildScheduledEvent) list) list
     \<Rightarrow> ((nat \<Rightarrow> Time) \<times> GuildScheduledEvent) list"
where
  "guildEntries [] = []"
| "guildEntries (Inl err # guilds) = guildEntries guilds"
| "guildEntries (Inr events # guilds) = events @ guildEntries guilds"

subsection \<open>Presence\<close>

fun eventPlayer :: "PresenceEvent \<Rightarrow> string" where
  "eventPlayer (NotifyMessage server player joined) = player"
| "eventPlayer (MoveMessage player oldserver newserver) = player"

text \<open>
  A player is listed on a server of a generation; is listed on that server and on no
  other; no player of the generation is listed on two servers; two generations list
  the same players on the same servers (as any reordering of the servers, or of the
  players of a server, does).
\<close>

definition listed :: "Generation \<Rightarrow> string \<Rightarrow> string \<Rightarrow> bool" where
  "listed g player server = (\<exists>(s, info) \<in> set g. s = server \<and> player \<in> set (Players info))"

definition onlyOn :: "Generation \<Rightarrow> string \<Rightarrow> string \<Rightarrow> bool" where
  "onlyOn g player server =
     (listed g player server \<and>
      (\<forall>(s, info) \<in> set g. player \<in> set (Players info) \<longrightarrow> s = server))"

definition singleListed :: "Generation \<Rightarrow> bool" where
  "singleListed g =
     (\<forall>(s, info) \<in> set g. \<forall>(s', info') \<in> set g. \<forall>player \<in> set (Players info).
        player \<in> set (Players info') \<longrightarrow> s = s')"

definition sameListing :: "Generation \<Rightarrow> Generation \<Rightarrow> bool" where
  "sameListing g g' =
     ((\<forall>(s, info) \<in> set g. \<forall>player \<in> set (Players info). listed g' player s) \<and>
      (\<forall>(s, info) \<in> set g'. \<forall>player \<in> set (Players info). listed g player s))"

text \<open>The events about one player, from the two player-to-server maps.\<close>

definition playerEvents ::
  "PlayerServer \<Rightarrow> PlayerServer \<Rightarrow> string \<Rightarrow> PresenceEvent list" where
  "playerEvents prevPlayerServer currPlayerServer player =
     (case map_of currPlayerServer player of
        None \<Rightarrow> []
      | Some newServer \<Rightarrow>
          (case map_of prevPlayerServer player of
             None \<Rightarrow> [NotifyMessage newServer player True]
           | Some oldServer \<Rightarrow>
               if oldServer \<noteq> newServer then [MoveMessage player oldServer newServer] else []))
     @ (case map_of prevPlayerServer player of
          None \<Rightarrow> []
        | Some oldServer \<Rightarrow>
            (case map_of currPlayerServer player of
               None \<Rightarrow> [NotifyMessage oldServer player False]
             | Some stillOnline \<Rightarrow> []))"

subsection \<open>Duration text\<close>

text \<open>
  The unit table \<open>FormatDuration\<close> uses for a language, and the text of a non-negative
  span of \<open>ns\<close> nanoseconds in the words of the specification, with every count
  a whole number of units of the span: from one day on, the days and, when not zero,
  the hours left over; else from one hour on, the hours and, when not zero, the
  minutes left over; else the minutes alone.
\<close>

definition unitsFor :: "Language \<Rightarrow> (string \<times> unit) list" where
  "unitsFor lang =
     (case map_of units lang of
        Some table \<Rightarrow> table
      | None \<Rightarrow> (case map_of units English of Some table \<Rightarrow> table | None \<Rightarrow> []))"

definition spanText :: "(string \<times> unit) list \<Rightarrow> int \<Rightarrow> string" where
  "spanText u ns =
     (let days = ns div (24 * Hour);
          hours = ns div Hour mod 24;
          wholeHours = ns div Hour;
          minutes = ns div Minute mod 60;
          wholeMinutes = ns div Minute
      in if 24 * Hour \<le> ns then
           showInt days @ '' '' @ pluralize days (unitAt u ''day'')
           @ (if hours = 0 then []
              else '' '' @ showInt hours @ '' '' @ pluralize hours (unitAt u ''hour''))
         else if Hour \<le> ns then
           showInt wholeHours @ '' '' @ pluralize wholeHours (unitAt u ''hour'')
           @ (if minutes = 0 then []
              else '' '' @ showInt minutes @ '' '' @ pluralize minutes (unitAt u ''minute''))
         else showInt wholeMinutes @ '' '' @ pluralize wholeMinutes (unitAt u ''minute''))"

subsection \<open>Concrete inputs\<close>

definition raidEvent :: GuildScheduledEvent where
  "raidEvent =
     \<lparr>ID = ''E1'', GuildID = ''G'', Name = ''raid'', ScheduledStartTime = 1000,
      Status = StatusScheduled\<rparr>"

definition huntEvent :: GuildScheduledEvent where
  "huntEvent =
     \<lparr>ID = ''E2'', GuildID = ''G'', Name = ''hunt'', ScheduledStartTime = 5000,
      Status = StatusScheduled\<rparr>"

definition raidReminder :: Reminder where
  "raidReminder =
     \<lparr>EventID = ''E1'', EventName = ''raid'', EventURL = ''https://discord.com/events/G/E1'',
      StartTime = 1000, RemindAt = 100, Now = False\<rparr>"

definition huntReminder :: Reminder where
  "huntReminder =
     \<lparr>EventID = ''E2'', EventName = ''hunt'', EventURL = ''https://discord.com/events/G/E2'',
      StartTime = 5000, RemindAt = 4000, Now = False\<rparr>"

definition botConfig :: ConfigDiscord where
  "botConfig =
     \<lparr>ChannelIDStatus = ''status'', CachePath = ''cache.txt'', ShowJoinLeave = True,
      PinPlayerList = False\<rparr>"

definition serverWith :: "string \<Rightarrow> string list \<Rightarrow> bool \<Rightarrow> string \<times> ServerInfo" where
  "serverWith name players reachable =
     (name, \<lparr>ServerName = name, Players = players, Reachable = reachable\<rparr>)"

definition statusMessage :: Message where
  "statusMessage = \<lparr>MsgID = ''7'', MsgAuthor = Some ''bot'', MsgContent = ''# Online players''\<rparr>"

definition chatMessage :: Message where
  "chatMessage = \<lparr>MsgID = ''9'', MsgAuthor = Some ''alice'', MsgContent = ''Online players?''\<rparr>"

text \<open>
  A Discord service on which the message \<open>42\<close> is gone (a fetch by identifier
  fails) while the channel still holds an older status message of the bot.
\<close>

definition staleSession :: Session where
  "staleSession =
     \<lparr>ChannelMessage = (\<lambda>channel messageID. Inl ''HTTP 404 Not Found''),
      ChannelMessages = (\<lambda>channel limit. Inr [chatMessage, statusMessage]),
      ChannelMessageEditComplex = (\<lambda>edit. Inr statusMessage),
      ChannelMessageSendComplex = (\<lambda>channel payload. Inr statusMessage),
      ChannelMessagePin = (\<lambda>channel messageID. None)\<rparr>"

text \<open>
  A Discord service on which the message \<open>42\<close> is still there, beside the older
  status message in the channel.
\<close>

definition pinnedMessage :: Message where
  "pinnedMessage = \<lparr>MsgID = ''42'', MsgAuthor = Some ''bot'', MsgContent = ''# Online players''\<rparr>"

definition liveSession :: Session where
  "liveSession =
     \<lparr>ChannelMessage = (\<lambda>channel messageID. Inr pinnedMessage),
      ChannelMessages = (\<lambda>channel limit. Inr [chatMessage, statusMessage, pinnedMessage]),
      ChannelMessageEditComplex = (\<lambda>edit. Inr pinnedMessage),
      ChannelMessageSendComplex = (\<lambda>channel payload. Inr pinnedMessage),
      ChannelMessagePin = (\<lambda>channel messageID. None)\<rparr>"



section \<open>Properties of the reminder store\<close>

subsection \<open>The loops as filters\<close>

lemma removeLoop_filter:
  "removeLoop eventID rs updatedList = updatedList @ filter (\<lambda>r. EventID r \<noteq> eventID) rs"
  by (induction rs arbitrary: updatedList) auto

lemma removeRemindersForEvent_filter:
  "removeRemindersForEvent eventID pending = filter (\<lambda>r. EventID r \<noteq> eventID) pending"
  by (simp add: removeRemindersForEvent_def removeLoop_filter)

lemma queueLoop_append:
  "queueLoop clock k event offsets pending =
     pending @ map (offsetReminder event)
       (map snd
          (filter (\<lambda>(i, offset). clock i < Add (ScheduledStartTime event) (- offset))
             (enumerate k offsets)))"
  by (induction offsets arbitrary: k pending) (auto simp: Let_def Before_def)

lemma workerLoop_filter:
  "workerLoop now rs sent remaining =
     (sent @ filter (\<lambda>r. RemindAt r < now) rs, remaining @ filter (\<lambda>r. now \<le> RemindAt r) rs)"
  by (induction rs arbitrary: sent remaining) (auto simp: After_def)

lemma queueReminders_append:
  "queueReminders offsets clock event pending = pending @ derivedReminders offsets clock event"
  by (simp add: queueReminders_def derivedReminders_def queueLoop_append Before_def)

lemma derived_EventID:
  "r \<in> set (derivedReminders offsets clock event) \<Longrightarrow> EventID r = ID event"
  by (auto simp: derivedReminders_def offsetReminder_def startReminder_def split: if_splits)

text \<open>
  The instant \<open>Add t (- offset)\<close> is \<open>t\<close> less the offset, for every offset but the
  least \<open>Duration\<close>, whose negation wraps to itself.
\<close>

lemma Add_negated_offset:
  fixes offset :: Duration
  assumes "offset \<noteq> - (2 ^ 63)"
  shows "Add t (- offset) = t - sint offset"
proof -
  have m: "sint (- (2 ^ 63) :: Duration) = - (2 ^ 63)" by simp
  have "sint offset \<noteq> - (2 ^ 63)"
  proof
    assume "sint offset = - (2 ^ 63)"
    then have "sint offset = sint (- (2 ^ 63) :: Duration)" using m by simp
    then have "offset = - (2 ^ 63)" by (rule signed_word_eqI)
    with assms show False by simp
  qed
  moreover have "- (2 ^ 63) \<le> sint offset" "sint offset < 2 ^ 63"
    using sint_ge [of offset] sint_lt [of offset] by simp_all
  ultimately have r: "- (2 ^ 63) \<le> - sint offset" "- sint offset < 2 ^ 63" by linarith+
  have "sint (- offset) = signed_take_bit 63 (- sint offset)"
    by (simp add: sint_word_ariths)
  also have "\<dots> = - sint offset"
    using r by (simp add: signed_take_bit_int_eq_self_iff)
  finally show ?thesis by (simp add: Add_def)
qed

text \<open>
  C1, as the code has it. A tick hands to the sender exactly the pending reminders
  whose \<open>RemindAt\<close> is strictly before \<open>now\<close>, in store order, and leaves exactly the
  others pending: the comparison of the source is \<open>now.After(r.RemindAt)\<close>. A reminder
  with \<open>RemindAt = t\<close> is therefore not drained at any instant up to and including
  \<open>t\<close>, and is drained at every later instant.
\<close>

theorem reminderTick_drains_strictly_due:
  "reminderTick now pending =
     (filter (\<lambda>r. RemindAt r < now) pending, filter (\<lambda>r. now \<le> RemindAt r) pending)"
proof -
  have "reminderTick now pending = workerLoop now pending [] []"
    by (simp only: reminderTick_def)
  also have "\<dots> =
      ([] @ filter (\<lambda>r. RemindAt r < now) pending,
       [] @ filter (\<lambda>r. now \<le> RemindAt r) pending)"
    by (rule workerLoop_filter)
  finally show ?thesis by simp
qed

theorem reminderTick_drains_strictly_due_witness:
  "reminderTick 100 [raidReminder, huntReminder] = ([], [raidReminder, huntReminder]) \<and>
   reminderTick 101 [raidReminder, huntReminder] = ([raidReminder], [huntReminder])"
  using reminderTick_drains_strictly_due [of 100 "[raidReminder, huntReminder]"]
    reminderTick_drains_strictly_due [of 101 "[raidReminder, huntReminder]"]
  by (simp add: raidReminder_def huntReminder_def)

text \<open>
  C1 as stated fails at the instant \<open>t\<close> itself: the reminder whose \<open>RemindAt\<close> is 100
  is due at 100 in the sense of \<open>RemindAt \<le> now\<close>, and the tick at 100 sends nothing
  and keeps it pending.
\<close>

theorem reminderTick_at_RemindAt_counterexample:
  "RemindAt raidReminder \<le> 100 \<and> reminderTick 100 [raidReminder] = ([], [raidReminder])"
  by (simp add: reminderTick_def After_def raidReminder_def)

text \<open>An update with status "scheduled" is the purge followed by the derivation.\<close>

lemma updateRemindersForEvent_scheduled:
  "Status e = StatusScheduled \<Longrightarrow>
   updateRemindersForEvent offsets clock e pending =
     queueReminders offsets clock e (removeRemindersForEvent (ID e) pending)"
  by (simp add: updateRemindersForEvent_def)

text \<open>
  C2. Purging the reminders of an event and deriving them again, under any offsets and
  clock and from any store (so whatever offsets produced it), leaves the store holding,
  for that event, exactly the newly derived reminders, and for every other event
  exactly what it held before, in the same order.
\<close>

theorem purge_then_requeue:
  "queueReminders offsets clock event (removeRemindersForEvent (ID event) pending) =
     filter (\<lambda>r. EventID r \<noteq> ID event) pending @ derivedReminders offsets clock event \<and>
   filter (\<lambda>r. EventID r = ID event)
     (queueReminders offsets clock event (removeRemindersForEvent (ID event) pending)) =
     derivedReminders offsets clock event \<and>
   filter (\<lambda>r. EventID r \<noteq> ID event)
     (queueReminders offsets clock event (removeRemindersForEvent (ID event) pending)) =
     filter (\<lambda>r. EventID r \<noteq> ID event) pending"
proof -
  have all: "filter (\<lambda>r. EventID r = ID event) (derivedReminders offsets clock event) =
      derivedReminders offsets clock event"
    by (rule filter_True) (simp add: derived_EventID)
  have none: "filter (\<lambda>r. EventID r \<noteq> ID event) (derivedReminders offsets clock event) = []"
    by (simp add: filter_empty_conv derived_EventID)
  show ?thesis
    by (simp add: queueReminders_append removeRemindersForEvent_filter all none)
qed

theorem purge_then_requeue_witness:
  "queueReminders [200] (frozenClock 0) (raidEvent\<lparr>ScheduledStartTime := 2000\<rparr>)
     (removeRemindersForEvent ''E1'' [raidReminder, huntReminder]) =
   [huntReminder,
    \<lparr>EventID = ''E1'', EventName = ''raid'', EventURL = ''https://discord.com/events/G/E1'',
      StartTime = 2000, RemindAt = 1800, Now = False\<rparr>,
    \<lparr>EventID = ''E1'', EventName = ''raid'', EventURL = ''https://discord.com/events/G/E1'',
      StartTime = 2000, RemindAt = 2000, Now = True\<rparr>]"
  using purge_then_requeue [of "[200]" "frozenClock 0" "raidEvent\<lparr>ScheduledStartTime := 2000\<rparr>"
      "[raidReminder, huntReminder]"]
  by (simp add: raidEvent_def raidReminder_def huntReminder_def derivedReminders_def
      frozenClock_def Add_def offsetReminder_def startReminder_def eventURL_def)

text \<open>
  C6, as the code has it. For an offset list without the least \<open>Duration\<close> (\<open>- 2 ^ 63\<close>
  nanoseconds, whose negation wraps to itself), deriving the reminder set of an event
  appends to the store, for each offset in configuration order, a reminder with
  \<open>Now = False\<close> and \<open>RemindAt\<close> the start time less the offset exactly when that
  instant is strictly after the instant its check reads from the clock, and then one
  reminder with \<open>Now = True\<close> and \<open>RemindAt = ScheduledStartTime\<close> exactly when the start
  time is strictly after the instant the last check reads. Nothing else is appended
  and the store's earlier content is kept.
\<close>

theorem queueReminders_derives:
  assumes "- (2 ^ 63) \<notin> set offsets"
  shows
  "queueReminders offsets clock event pending =
     pending
     @ map (offsetReminder event)
         (map snd
            (filter (\<lambda>(k, offset). clock k < ScheduledStartTime event - sint offset)
               (enumerate 0 offsets)))
     @ (if clock (length offsets) < ScheduledStartTime event then [startReminder event] else []) \<and>
   (\<forall>offset \<in> set offsets.
      RemindAt (offsetReminder event offset) = ScheduledStartTime event - sint offset \<and>
      Now (offsetReminder event offset) = False) \<and>
   RemindAt (startReminder event) = ScheduledStartTime event \<and>
   Now (startReminder event) = True"
proof -
  have instant: "Add (ScheduledStartTime event) (- offset) = ScheduledStartTime event - sint offset"
    if "offset \<in> set offsets" for offset
  proof -
    from that assms have "offset \<noteq> - (2 ^ 63)" by auto
    then show ?thesis by (rule Add_negated_offset)
  qed
  have kept: "filter (\<lambda>(k, offset). clock k < Add (ScheduledStartTime event) (- offset))
                (enumerate 0 offsets) =
              filter (\<lambda>(k, offset). clock k < ScheduledStartTime event - sint offset)
                (enumerate 0 offsets)"
  proof (rule filter_cong [OF refl])
    fix x assume x: "x \<in> set (enumerate 0 offsets)"
    obtain k offset where p: "x = (k, offset)" by (cases x)
    with x have "offset \<in> set offsets" by (auto simp: in_set_enumerate_eq)
    then show "(case x of (k, offset) \<Rightarrow> clock k < Add (ScheduledStartTime event) (- offset)) =
        (case x of (k, offset) \<Rightarrow> clock k < ScheduledStartTime event - sint offset)"
      by (simp add: p instant)
  qed
  have loop: "queueLoop clock 0 event offsets pending =
      pending @ map (offsetReminder event)
        (map snd
           (filter (\<lambda>(k, offset). clock k < ScheduledStartTime event - sint offset)
              (enumerate 0 offsets)))"
    unfolding kept [symmetric] by (rule queueLoop_append)
  have store: "queueReminders offsets clock event pending =
      pending
      @ map (offsetReminder event)
          (map snd
             (filter (\<lambda>(k, offset). clock k < ScheduledStartTime event - sint offset)
                (enumerate 0 offsets)))
      @ (if clock (length offsets) < ScheduledStartTime event then [startReminder event] else [])"
    unfolding queueReminders_def loop by (simp add: Before_def)
  have early: "\<forall>offset \<in> set offsets.
      RemindAt (offsetReminder event offset) = ScheduledStartTime event - sint offset \<and>
      Now (offsetReminder event offset) = False"
    by (simp add: offsetReminder_def instant)
  have start: "RemindAt (startReminder event) = ScheduledStartTime event"
    "Now (startReminder event) = True"
    by (simp_all add: startReminder_def)
  show ?thesis using store early start by simp
qed

theorem queueReminders_derives_witness:
  "- (2 ^ 63) \<notin> set [1200 :: Duration, 200, 0] \<and>
   queueReminders [1200, 200, 0] (frozenClock 0) raidEvent [] =
     [\<lparr>EventID = ''E1'', EventName = ''raid'', EventURL = ''https://discord.com/events/G/E1'',
       StartTime = 1000, RemindAt = 800, Now = False\<rparr>,
      \<lparr>EventID = ''E1'', EventName = ''raid'', EventURL = ''https://discord.com/events/G/E1'',
       StartTime = 1000, RemindAt = 1000, Now = False\<rparr>,
      \<lparr>EventID = ''E1'', EventName = ''raid'', EventURL = ''https://discord.com/events/G/E1'',
       StartTime = 1000, RemindAt = 1000, Now = True\<rparr>] \<and>
   queueReminders [1200, 200, 0] (frozenClock 1000) raidEvent [] = []"
proof -
  have h: "- (2 ^ 63) \<notin> set [1200 :: Duration, 200, 0]" by simp
  show ?thesis
    using h queueReminders_derives [OF h, of "frozenClock 0" raidEvent "[]"]
      queueReminders_derives [OF h, of "frozenClock 1000" raidEvent "[]"]
    by (simp add: raidEvent_def frozenClock_def Add_def offsetReminder_def startReminder_def
        eventURL_def enumerate_eq_zip upt_rec)
qed

text \<open>
  C6 as stated fails at the least \<open>Duration\<close>: the start time less that offset is
  \<open>2 ^ 63\<close> nanoseconds after the start and so strictly after the instant 0 of the
  derivation, yet the negated offset wraps, the source computes an instant \<open>2 ^ 63\<close>
  nanoseconds before the start, and no reminder is appended for the offset.
\<close>

theorem least_offset_skipped_counterexample:
  "frozenClock 0 0 < ScheduledStartTime raidEvent - sint (- (2 ^ 63) :: Duration) \<and>
   Add (ScheduledStartTime raidEvent) (- (- (2 ^ 63))) = ScheduledStartTime raidEvent - 2 ^ 63 \<and>
   queueReminders [- (2 ^ 63)] (frozenClock 0) raidEvent [] = [startReminder raidEvent]"
  by (simp add: queueReminders_def Let_def Before_def frozenClock_def raidEvent_def Add_def)

subsection \<open>Uniqueness of event and firing instant\<close>

lemma Add_negated_inject: "Add t (- x) = Add t (- y) \<Longrightarrow> x = y"
proof -
  assume "Add t (- x) = Add t (- y)"
  then have "sint (- x) = sint (- y)" by (simp add: Add_def)
  then have "- x = - y" by (rule signed_word_eqI)
  then show "x = y" by simp
qed

lemma Add_negated_is_start: "Add t (- x) = t \<longleftrightarrow> x = 0"
  by (simp add: Add_def signed_eq_0_iff)

lemma distinct_selected:
  "distinct offsets \<Longrightarrow> distinct (map snd (filter P (enumerate k offsets)))"
  by (metis distinct_map_filter map_snd_enumerate)

lemma set_selected: "set (map snd (filter P (enumerate k offsets))) \<subseteq> set offsets"
  by (auto simp: in_set_enumerate_eq)

lemma derived_distinct:
  assumes "distinct offsets" "0 \<notin> set offsets"
  shows "distinct (map RemindAt (derivedReminders offsets clock event))"
proof -
  define sel where
    "sel = map snd
       (filter (\<lambda>(k, offset). clock k < Add (ScheduledStartTime event) (- offset))
          (enumerate 0 offsets))"
  have d: "distinct sel" unfolding sel_def using assms(1) by (rule distinct_selected)
  have s: "set sel \<subseteq> set offsets" unfolding sel_def by (rule set_selected)
  have inj: "inj_on (\<lambda>offset. Add (ScheduledStartTime event) (- offset)) (set sel)"
    by (rule inj_onI) (rule Add_negated_inject)
  have m: "map RemindAt (map (offsetReminder event) sel)
             = map (\<lambda>offset. Add (ScheduledStartTime event) (- offset)) sel"
    by (simp add: offsetReminder_def comp_def)
  have d1: "distinct (map RemindAt (map (offsetReminder event) sel))"
    unfolding m using d inj by (simp add: distinct_map)
  have nz: "ScheduledStartTime event \<notin> set (map RemindAt (map (offsetReminder event) sel))"
  proof
    assume "ScheduledStartTime event \<in> set (map RemindAt (map (offsetReminder event) sel))"
    then obtain x where "x \<in> set sel"
      "Add (ScheduledStartTime event) (- x) = ScheduledStartTime event"
      unfolding m by auto
    then have "x = 0" "x \<in> set offsets" using s by (auto simp: Add_negated_is_start)
    with assms(2) show False by simp
  qed
  have "derivedReminders offsets clock event = map (offsetReminder event) sel
     @ (if clock (length offsets) < ScheduledStartTime event then [startReminder event] else [])"
    by (simp add: derivedReminders_def sel_def)
  then show ?thesis
    using d1 nz by (simp add: startReminder_def del: map_map)
qed

lemma uniquePairs_filter: "uniquePairs pending \<Longrightarrow> uniquePairs (filter P pending)"
  by (simp add: uniquePairs_def distinct_map_filter)

lemma uniquePairs_append_derived:
  assumes "uniquePairs pending" "\<not> hasReminder pending (ID event)"
    "distinct offsets" "0 \<notin> set offsets"
  shows "uniquePairs (pending @ derivedReminders offsets clock event)"
proof -
  let ?d = "derivedReminders offsets clock event"
  have "distinct (map RemindAt ?d)" using assms(3,4) by (rule derived_distinct)
  then have dd: "distinct (map (\<lambda>r. (EventID r, RemindAt r)) ?d)"
    by (simp add: distinct_map inj_on_def)
  have disj: "set (map (\<lambda>r. (EventID r, RemindAt r)) pending)
                \<inter> set (map (\<lambda>r. (EventID r, RemindAt r)) ?d) = {}"
  proof (rule ccontr)
    assume "\<not> ?thesis"
    then obtain r r' where r: "r \<in> set pending" "r' \<in> set ?d"
      "(EventID r, RemindAt r) = (EventID r', RemindAt r')" by auto
    then have "EventID r = ID event" using derived_EventID [of r' offsets clock event] by simp
    with r(1) assms(2) show False by (force simp: hasReminder_def)
  qed
  show ?thesis
    using assms(1) dd disj by (simp add: uniquePairs_def)
qed

lemma hasReminder_queue:
  "hasReminder (queueReminders offsets clock event pending) i
     \<Longrightarrow> hasReminder pending i \<or> i = ID event"
  using derived_EventID [of _ offsets clock event]
  by (auto simp: hasReminder_def queueReminders_append)

lemma step_unique:
  assumes "distinct offsets" "0 \<notin> set offsets" "uniquePairs pending" "admissible pending op"
  shows "uniquePairs (step offsets pending op)"
proof (cases op)
  case (OpRemove eventID)
  then show ?thesis
    using assms(3) by (simp add: removeRemindersForEvent_filter uniquePairs_filter)
next
  case (OpQueue clock event)
  then show ?thesis
    using assms by (simp add: queueReminders_append uniquePairs_append_derived)
next
  case (OpTick now)
  then show ?thesis
    using assms(3) by (simp add: reminderTick_def workerLoop_filter uniquePairs_filter)
qed

lemma run_unique_from:
  assumes "distinct offsets" "0 \<notin> set offsets"
  shows "uniquePairs pending \<Longrightarrow> admissibleRun offsets pending ops
     \<Longrightarrow> uniquePairs (foldl (step offsets) pending ops)"
  by (induction ops arbitrary: pending) (auto simp: step_unique [OF assms])

subsection \<open>The handlers as sequences of store operations\<close>

text \<open>
  A handler whose store operations follow each other, with no operation of another
  goroutine between them, does to the store what its function says.
\<close>

lemma createOps_alone:
  "foldl (step offsets) pending (createOps clock event) =
     snd (createRemindersForEvent offsets clock event pending)"
  by (simp add: createOps_def createRemindersForEvent_def)

lemma updateOps_alone:
  "foldl (step offsets) pending (updateOps clock e) =
     updateRemindersForEvent offsets clock e pending"
  by (simp add: updateOps_def updateRemindersForEvent_def)

lemma syncEvents_ops:
  "foldl (step offsets) pending (map (\<lambda>(clock, event). OpQueue clock event) events) =
     syncEvents offsets events pending"
  by (induction events arbitrary: pending) auto

lemma syncOps_alone:
  "foldl (step offsets) pending (syncOps guilds) = syncExistingEvents offsets guilds pending"
  by (induction guilds arbitrary: pending rule: syncOps.induct) (auto simp: syncEvents_ops)

lemma syncOps_entries:
  "syncOps guilds = map (\<lambda>(clock, event). OpQueue clock event) (guildEntries guilds)"
  by (induction guilds rule: syncOps.induct) auto

lemma admissibleRun_append:
  "admissibleRun offsets pending (xs @ ys) \<longleftrightarrow>
     admissibleRun offsets pending xs \<and>
     admissibleRun offsets (foldl (step offsets) pending xs) ys"
  by (induction xs arbitrary: pending) auto

text \<open>
  Which handlers are admissible when they run alone: an update always (it purges
  first), a creation for an event without a pending reminder, a reconciliation that
  lists every event once and lists no event with a pending reminder.
\<close>

lemma updateOps_admissible: "admissibleRun offsets pending (updateOps clock e)"
  by (auto simp: updateOps_def removeRemindersForEvent_filter hasReminder_def)

lemma createOps_admissible:
  "admissibleRun offsets pending (createOps clock event) \<longleftrightarrow> \<not> hasReminder pending (ID event)"
  by (simp add: createOps_def)

lemma queueOps_admissible:
  "distinct (map (\<lambda>x. ID (snd x)) events)
     \<Longrightarrow> list_all (\<lambda>x. \<not> hasReminder pending (ID (snd x))) events
     \<Longrightarrow> admissibleRun offsets pending (map (\<lambda>(clock, event). OpQueue clock event) events)"
proof (induction events arbitrary: pending)
  case Nil
  then show ?case by simp
next
  case (Cons x events)
  obtain clock event where x: "x = (clock, event)" by (cases x)
  let ?p = "queueReminders offsets clock event pending"
  have d: "distinct (map (\<lambda>x. ID (snd x)) events)" using Cons.prems by simp
  have f: "list_all (\<lambda>x. \<not> hasReminder ?p (ID (snd x))) events"
    unfolding list_all_iff
  proof
    fix y assume y: "y \<in> set events"
    then have "ID (snd y) \<noteq> ID event" using Cons.prems(1) x by force
    moreover have "\<not> hasReminder pending (ID (snd y))"
      using Cons.prems(2) y by (simp add: list_all_iff)
    ultimately show "\<not> hasReminder ?p (ID (snd y))"
      using hasReminder_queue by blast
  qed
  show ?case using Cons.IH [OF d f] Cons.prems(2) x by simp
qed

lemma syncOps_admissible:
  "distinct (map (\<lambda>x. ID (snd x)) (guildEntries guilds))
     \<Longrightarrow> list_all (\<lambda>x. \<not> hasReminder pending (ID (snd x))) (guildEntries guilds)
     \<Longrightarrow> admissibleRun offsets pending (syncOps guilds)"
  unfolding syncOps_entries by (rule queueOps_admissible)

text \<open>
  C3, as the code has it. The store never removes a duplicate, and the lock covers one
  store operation at a time. What keeps the pairs of event and firing instant unique
  is that the offsets are pairwise different and none is zero (a zero offset fires at
  the start time, as the "starting now" reminder does), and that every derivation
  meets a store without a reminder of its event. Under these conditions every state
  reached from the empty store by purges, derivations and ticks, in whatever order the
  goroutines make them, has at most one reminder per pair of event and firing instant.
\<close>

theorem unique_pairs_invariant:
  assumes "distinct offsets" and "0 \<notin> set offsets" and "admissibleRun offsets [] ops"
  shows "uniquePairs (run offsets ops)"
  unfolding run_def using assms(1,2) _ assms(3)
  by (rule run_unique_from) (simp add: uniquePairs_def)

theorem unique_pairs_invariant_witness:
  "distinct [900 :: Duration, 200] \<and> (0 :: Duration) \<notin> set [900, 200] \<and>
   admissibleRun [900, 200] []
     [OpQueue (frozenClock 0) raidEvent, OpTick 150,
      OpRemove ''E1'', OpQueue (frozenClock 170) huntEvent,
      OpQueue (frozenClock 160) (raidEvent\<lparr>ScheduledStartTime := 2000\<rparr>)] \<and>
   uniquePairs
     (run [900, 200]
        [OpQueue (frozenClock 0) raidEvent, OpTick 150,
         OpRemove ''E1'', OpQueue (frozenClock 170) huntEvent,
         OpQueue (frozenClock 160) (raidEvent\<lparr>ScheduledStartTime := 2000\<rparr>)])"
proof -
  have d: "distinct [900 :: Duration, 200]" by simp
  have z: "(0 :: Duration) \<notin> set [900, 200]" by simp
  have a: "admissibleRun [900, 200] []
     [OpQueue (frozenClock 0) raidEvent, OpTick 150,
      OpRemove ''E1'', OpQueue (frozenClock 170) huntEvent,
      OpQueue (frozenClock 160) (raidEvent\<lparr>ScheduledStartTime := 2000\<rparr>)]"
    by (simp add: queueReminders_def Let_def Before_def
        frozenClock_def raidEvent_def huntEvent_def Add_def offsetReminder_def
        startReminder_def hasReminder_def reminderTick_def After_def
        removeRemindersForEvent_def)
  show ?thesis using d z a unique_pairs_invariant [OF d z a] by simp
qed

text \<open>
  C3 as stated fails in two ways. Under a zero offset, one creation notification into
  the empty store leaves two reminders of the event with the start time as firing
  instant, one from the zero offset and the "starting now" one. And under the single
  offset 200, two update notifications for the same event whose handlers alternate,
  both purges before both derivations, leave every derived reminder twice.
\<close>

theorem duplicate_reminders_counterexample:
  "run [0] (createOps (frozenClock 0) raidEvent) =
     [offsetReminder raidEvent 0, startReminder raidEvent] \<and>
   EventID (offsetReminder raidEvent 0) = EventID (startReminder raidEvent) \<and>
   RemindAt (offsetReminder raidEvent 0) = RemindAt (startReminder raidEvent) \<and>
   \<not> uniquePairs (run [0] (createOps (frozenClock 0) raidEvent)) \<and>
   updateOps (frozenClock 0) raidEvent = [OpRemove ''E1'', OpQueue (frozenClock 0) raidEvent] \<and>
   [OpRemove ''E1'', OpRemove ''E1'', OpQueue (frozenClock 0) raidEvent,
    OpQueue (frozenClock 0) raidEvent]
     \<in> shuffles (updateOps (frozenClock 0) raidEvent) (updateOps (frozenClock 0) raidEvent) \<and>
   run [200]
     [OpRemove ''E1'', OpRemove ''E1'', OpQueue (frozenClock 0) raidEvent,
      OpQueue (frozenClock 0) raidEvent] =
     [offsetReminder raidEvent 200, startReminder raidEvent,
      offsetReminder raidEvent 200, startReminder raidEvent] \<and>
   \<not> uniquePairs
     (run [200]
        [OpRemove ''E1'', OpRemove ''E1'', OpQueue (frozenClock 0) raidEvent,
         OpQueue (frozenClock 0) raidEvent])"
proof -
  have ops: "updateOps (frozenClock 0) raidEvent =
      [OpRemove ''E1'', OpQueue (frozenClock 0) raidEvent]"
    by (simp add: updateOps_def raidEvent_def)
  have zero: "run [0] (createOps (frozenClock 0) raidEvent) =
      [offsetReminder raidEvent 0, startReminder raidEvent]"
    by (simp add: run_def createOps_def queueReminders_def Let_def Before_def
        frozenClock_def raidEvent_def Add_def)
  have same: "EventID (offsetReminder raidEvent 0) = EventID (startReminder raidEvent)"
    "RemindAt (offsetReminder raidEvent 0) = RemindAt (startReminder raidEvent)"
    by (simp_all add: offsetReminder_def startReminder_def Add_def)
  have twice: "run [200]
     [OpRemove ''E1'', OpRemove ''E1'', OpQueue (frozenClock 0) raidEvent,
      OpQueue (frozenClock 0) raidEvent] =
     [offsetReminder raidEvent 200, startReminder raidEvent,
      offsetReminder raidEvent 200, startReminder raidEvent]"
    by (simp add: run_def queueReminders_def Let_def Before_def removeRemindersForEvent_def
        frozenClock_def raidEvent_def Add_def)
  have mixed: "[OpRemove ''E1'', OpRemove ''E1'', OpQueue (frozenClock 0) raidEvent,
    OpQueue (frozenClock 0) raidEvent]
     \<in> shuffles [OpRemove ''E1'', OpQueue (frozenClock 0) raidEvent]
         [OpRemove ''E1'', OpQueue (frozenClock 0) raidEvent]"
    by simp
  show ?thesis
    unfolding zero twice ops using same mixed by (simp add: uniquePairs_def)
qed

section \<open>Properties of the presence diff\<close>

subsection \<open>The player-to-server maps\<close>

lemma indexPlayers_map_of:
  "map_of (indexPlayers server players idx) p =
     (if p \<in> set players then Some server else map_of idx p)"
  by (induction players arbitrary: idx) (auto simp: update_conv')

lemma indexPlayers_distinct:
  "distinct (map fst idx) \<Longrightarrow> distinct (map fst (indexPlayers server players idx))"
  by (induction players arbitrary: idx) (auto simp: distinct_update)

lemma indexServers_distinct:
  "distinct (map fst idx) \<Longrightarrow> distinct (map fst (indexServers g idx))"
  by (induction g idx rule: indexServers.induct) (auto simp: indexPlayers_distinct)

lemma indexServers_Some:
  "map_of (indexServers g idx) p = Some s \<Longrightarrow> listed g p s \<or> map_of idx p = Some s"
proof (induction g idx rule: indexServers.induct)
  case (1 idx)
  then show ?case by simp
next
  case (2 server info infos idx)
  from 2 have "listed infos p s \<or> map_of (indexPlayers server (Players info) idx) p = Some s"
    by simp
  then show ?case
    by (auto simp: listed_def indexPlayers_map_of split: if_splits)
qed

lemma indexServers_None:
  "map_of (indexServers g idx) p = None \<longleftrightarrow> (\<forall>s. \<not> listed g p s) \<and> map_of idx p = None"
proof (induction g idx rule: indexServers.induct)
  case (1 idx)
  then show ?case by (simp add: listed_def)
next
  case (2 server info infos idx)
  then show ?case
    by (auto simp: listed_def indexPlayers_map_of split: if_splits)
qed

lemma singleListed_iff:
  "singleListed g \<longleftrightarrow> (\<forall>p s s'. listed g p s \<and> listed g p s' \<longrightarrow> s = s')"
  unfolding singleListed_def listed_def by fast

lemma onlyOn_unique: "onlyOn g p s \<Longrightarrow> listed g p s' \<Longrightarrow> s' = s"
  unfolding onlyOn_def listed_def by fast

lemma index_listed:
  assumes "listed g p s"
  obtains s' where "map_of (indexServers g []) p = Some s'" "listed g p s'"
proof -
  have "map_of (indexServers g []) p \<noteq> None"
    using assms by (auto simp: indexServers_None)
  then obtain s' where s': "map_of (indexServers g []) p = Some s'" by auto
  then have "listed g p s'" using indexServers_Some by fastforce
  with s' show ?thesis by (rule that)
qed

lemma index_onlyOn:
  assumes "onlyOn g p s"
  shows "map_of (indexServers g []) p = Some s"
proof -
  have "listed g p s" using assms by (simp add: onlyOn_def)
  then obtain s' where s': "map_of (indexServers g []) p = Some s'" "listed g p s'"
    by (rule index_listed)
  from assms s'(2) have "s' = s" by (rule onlyOn_unique)
  with s'(1) show ?thesis by simp
qed

lemma index_single:
  assumes "singleListed g"
  shows "map_of (indexServers g []) p = Some s \<longleftrightarrow> listed g p s"
proof
  assume "map_of (indexServers g []) p = Some s"
  then show "listed g p s" using indexServers_Some by fastforce
next
  assume l: "listed g p s"
  then obtain s' where s': "map_of (indexServers g []) p = Some s'" "listed g p s'"
    by (rule index_listed)
  then have "s' = s" using assms l unfolding singleListed_iff by blast
  with s'(1) show "map_of (indexServers g []) p = Some s" by simp
qed

subsection \<open>The events about one player\<close>

lemma joinsMoves_absent:
  "p \<notin> fst ` set currIdx \<Longrightarrow>
   filter (\<lambda>e. eventPlayer e = p) (detectJoinsMoves prevIdx currIdx) = []"
  by (induction prevIdx currIdx rule: detectJoinsMoves.induct) (auto split: option.splits)

lemma leaves_absent:
  "p \<notin> fst ` set prevIdx \<Longrightarrow>
   filter (\<lambda>e. eventPlayer e = p) (detectLeaves currIdx prevIdx) = []"
  by (induction currIdx prevIdx rule: detectLeaves.induct) (auto split: option.splits)

lemma joinsMoves_player:
  "distinct (map fst currIdx) \<Longrightarrow>
   filter (\<lambda>e. eventPlayer e = p) (detectJoinsMoves prevIdx currIdx) =
     (case map_of currIdx p of
        None \<Rightarrow> []
      | Some newServer \<Rightarrow>
          (case map_of prevIdx p of
             None \<Rightarrow> [NotifyMessage newServer p True]
           | Some oldServer \<Rightarrow>
               if oldServer \<noteq> newServer then [MoveMessage p oldServer newServer] else []))"
proof (induction prevIdx currIdx rule: detectJoinsMoves.induct)
  case (1 prevIdx)
  then show ?case by simp
next
  case (2 prevIdx player newServer rest)
  show ?case
  proof (cases "player = p")
    case True
    then have "p \<notin> fst ` set rest" using 2(2) by simp
    then show ?thesis using True by (simp add: joinsMoves_absent split: option.splits)
  next
    case False
    then show ?thesis using 2 by (auto split: option.splits)
  qed
qed

lemma leaves_player:
  "distinct (map fst prevIdx) \<Longrightarrow>
   filter (\<lambda>e. eventPlayer e = p) (detectLeaves currIdx prevIdx) =
     (case map_of prevIdx p of
        None \<Rightarrow> []
      | Some oldServer \<Rightarrow>
          (case map_of currIdx p of
             None \<Rightarrow> [NotifyMessage oldServer p False]
           | Some stillOnline \<Rightarrow> []))"
proof (induction currIdx prevIdx rule: detectLeaves.induct)
  case (1 currIdx)
  then show ?case by simp
next
  case (2 currIdx player oldServer rest)
  show ?case
  proof (cases "player = p")
    case True
    then have "p \<notin> fst ` set rest" using 2(2) by simp
    then show ?thesis using True by (simp add: leaves_absent split: option.splits)
  next
    case False
    then show ?thesis using 2 by (auto split: option.splits)
  qed
qed

lemma presenceDiff_player:
  "ShowJoinLeave cfg \<Longrightarrow>
   filter (\<lambda>e. eventPlayer e = p) (presenceDiff cfg (Some g) g') =
     playerEvents (indexServers g []) (indexServers g' []) p"
  by (simp add: presenceDiff_def Let_def playerEvents_def joinsMoves_player leaves_player
      indexServers_distinct)

text \<open>Before the first snapshot the diff is the diff against the empty generation.\<close>

lemma presenceDiff_first_round: "presenceDiff cfg None g = presenceDiff cfg (Some []) g"
  by (simp add: presenceDiff_def)

text \<open>
  C7, as the code has it. The diff reads one server per player from each generation.
  When join and leave notifications are enabled and the player is listed on server
  \<open>a\<close> and on no other server in the previous generation, and on server \<open>b\<close> and on
  no other in the current one, with \<open>a\<close> and \<open>b\<close> different, the events about the
  player are exactly one move from \<open>a\<close> to \<open>b\<close>: no join and no leave. This holds in
  whatever order the loops visit the servers.
\<close>

theorem move_is_one_event:
  assumes "ShowJoinLeave cfg"
    and "onlyOn prevInfos player a" and "onlyOn ifos player b" and "a \<noteq> b"
  shows "filter (\<lambda>e. eventPlayer e = player) (presenceDiff cfg (Some prevInfos) ifos) =
           [MoveMessage player a b]"
  using assms by (simp add: presenceDiff_player playerEvents_def index_onlyOn)

theorem move_is_one_event_witness:
  "ShowJoinLeave botConfig \<and>
   onlyOn [serverWith ''A'' [''p1'', ''p2''] True] ''p2'' ''A'' \<and>
   onlyOn [serverWith ''A'' [''p1''] True, serverWith ''B'' [''p2''] True] ''p2'' ''B'' \<and>
   ''A'' \<noteq> ''B'' \<and>
   filter (\<lambda>e. eventPlayer e = ''p2'')
     (presenceDiff botConfig (Some [serverWith ''A'' [''p1'', ''p2''] True])
        [serverWith ''A'' [''p1''] True, serverWith ''B'' [''p2''] True]) =
     [MoveMessage ''p2'' ''A'' ''B''] \<and>
   presenceDiff botConfig (Some [serverWith ''A'' [''p1'', ''p2''] True])
     [serverWith ''A'' [''p1''] True, serverWith ''B'' [''p2''] True] =
     [MoveMessage ''p2'' ''A'' ''B'']"
proof -
  have c: "ShowJoinLeave botConfig" by (simp add: botConfig_def)
  have p: "onlyOn [serverWith ''A'' [''p1'', ''p2''] True] ''p2'' ''A''"
    by (simp add: onlyOn_def listed_def serverWith_def)
  have q: "onlyOn [serverWith ''A'' [''p1''] True, serverWith ''B'' [''p2''] True] ''p2'' ''B''"
    by (simp add: onlyOn_def listed_def serverWith_def)
  have n: "''A'' \<noteq> ''B''" by simp
  have all: "presenceDiff botConfig (Some [serverWith ''A'' [''p1'', ''p2''] True])
     [serverWith ''A'' [''p1''] True, serverWith ''B'' [''p2''] True] =
     [MoveMessage ''p2'' ''A'' ''B'']"
    by (simp add: presenceDiff_def botConfig_def serverWith_def)
  show ?thesis using c p q n all move_is_one_event [OF c p q n] by simp
qed

text \<open>
  C7 as stated fails when the player is listed on two servers of the current
  generation. Player \<open>p\<close> was on \<open>A\<close> and is now listed on \<open>A\<close> and on \<open>B\<close>: when the
  loop visits \<open>A\<close> last, the diff emits nothing; when it visits \<open>B\<close> last, it emits the
  move.
\<close>

theorem listed_twice_no_move_counterexample:
  "listed [serverWith ''A'' [''p''] True] ''p'' ''A'' \<and>
   listed [serverWith ''B'' [''p''] True, serverWith ''A'' [''p''] True] ''p'' ''B'' \<and>
   ''A'' \<noteq> ''B'' \<and>
   presenceDiff botConfig (Some [serverWith ''A'' [''p''] True])
     [serverWith ''B'' [''p''] True, serverWith ''A'' [''p''] True] = [] \<and>
   presenceDiff botConfig (Some [serverWith ''A'' [''p''] True])
     [serverWith ''A'' [''p''] True, serverWith ''B'' [''p''] True] =
     [MoveMessage ''p'' ''A'' ''B'']"
  by (simp add: presenceDiff_def botConfig_def serverWith_def listed_def)

subsection \<open>Independence of the visiting order\<close>

lemma sameListing_listed: "sameListing g g' \<Longrightarrow> listed g p s \<longleftrightarrow> listed g' p s"
  unfolding sameListing_def listed_def by fast

lemma sameListing_single: "sameListing g g' \<Longrightarrow> singleListed g \<Longrightarrow> singleListed g'"
  unfolding singleListed_iff using sameListing_listed by blast

text \<open>Reordering the servers, or the players of a server, keeps the listing.\<close>

lemma sameListing_reordered_servers: "set g = set g' \<Longrightarrow> sameListing g g'"
  by (auto simp: sameListing_def listed_def)

lemma sameListing_reordered_players:
  "set players = set players' \<Longrightarrow>
   sameListing (xs @ (s, info\<lparr>Players := players\<rparr>) # ys)
     (xs @ (s, info\<lparr>Players := players'\<rparr>) # ys)"
  unfolding sameListing_def listed_def by auto

lemma index_same:
  assumes "singleListed g" "sameListing g g'"
  shows "map_of (indexServers g []) p = map_of (indexServers g' []) p"
proof -
  have s': "singleListed g'" using assms(2,1) by (rule sameListing_single)
  show ?thesis
  proof (cases "map_of (indexServers g []) p")
    case None
    then have "\<forall>s. \<not> listed g' p s"
      using sameListing_listed [OF assms(2)] by (simp add: indexServers_None)
    then have "map_of (indexServers g' []) p = None" by (simp add: indexServers_None)
    with None show ?thesis by simp
  next
    case (Some s)
    then have "listed g' p s"
      using index_single [OF assms(1)] sameListing_listed [OF assms(2)] by simp
    then have "map_of (indexServers g' []) p = Some s" using index_single [OF s'] by simp
    with Some show ?thesis by simp
  qed
qed

lemma set_by_player:
  assumes "\<And>p. filter (\<lambda>e. eventPlayer e = p) xs = filter (\<lambda>e. eventPlayer e = p) ys"
  shows "set xs = set ys"
proof -
  have "e \<in> set xs \<longleftrightarrow> e \<in> set ys" for e
  proof -
    have "e \<in> set xs \<longleftrightarrow> e \<in> set (filter (\<lambda>e'. eventPlayer e' = eventPlayer e) xs)" by simp
    also have "\<dots> \<longleftrightarrow> e \<in> set (filter (\<lambda>e'. eventPlayer e' = eventPlayer e) ys)"
      by (simp only: assms)
    also have "\<dots> \<longleftrightarrow> e \<in> set ys" by simp
    finally show ?thesis .
  qed
  then show ?thesis by blast
qed

text \<open>
  C8, as the code has it. When no player is listed on two servers of the previous
  generation, nor on two servers of the current one, two runs of the diff on
  generations that list the same players on the same servers, in whatever order of
  servers and of players, emit the same set of events.
\<close>

theorem diff_order_independent:
  assumes "singleListed prevInfos" and "singleListed ifos"
    and "sameListing prevInfos prevInfos'" and "sameListing ifos ifos'"
  shows "set (presenceDiff cfg (Some prevInfos) ifos) =
         set (presenceDiff cfg (Some prevInfos') ifos')"
proof (cases "ShowJoinLeave cfg")
  case True
  have "playerEvents (indexServers prevInfos []) (indexServers ifos []) p
      = playerEvents (indexServers prevInfos' []) (indexServers ifos' []) p" for p
    by (simp add: playerEvents_def index_same [OF assms(1,3)] index_same [OF assms(2,4)]
        cong: option.case_cong)
  then show ?thesis
    using True by (intro set_by_player) (simp add: presenceDiff_player)
next
  case False
  then show ?thesis by (simp add: presenceDiff_def)
qed

theorem diff_order_independent_witness:
  "singleListed [serverWith ''A'' [''p1'', ''p2''] True, serverWith ''B'' [''p3''] True] \<and>
   singleListed [serverWith ''A'' [''p1''] True, serverWith ''B'' [''p2'', ''p4''] True] \<and>
   sameListing [serverWith ''A'' [''p1'', ''p2''] True, serverWith ''B'' [''p3''] True]
     [serverWith ''B'' [''p3''] True, serverWith ''A'' [''p2'', ''p1''] True] \<and>
   sameListing [serverWith ''A'' [''p1''] True, serverWith ''B'' [''p2'', ''p4''] True]
     [serverWith ''B'' [''p4'', ''p2''] True, serverWith ''A'' [''p1''] True] \<and>
   set (presenceDiff botConfig
          (Some [serverWith ''A'' [''p1'', ''p2''] True, serverWith ''B'' [''p3''] True])
          [serverWith ''A'' [''p1''] True, serverWith ''B'' [''p2'', ''p4''] True]) =
   set (presenceDiff botConfig
          (Some [serverWith ''B'' [''p3''] True, serverWith ''A'' [''p2'', ''p1''] True])
          [serverWith ''B'' [''p4'', ''p2''] True, serverWith ''A'' [''p1''] True])"
proof -
  have a: "singleListed [serverWith ''A'' [''p1'', ''p2''] True, serverWith ''B'' [''p3''] True]"
    by (simp add: singleListed_def serverWith_def)
  have b: "singleListed [serverWith ''A'' [''p1''] True, serverWith ''B'' [''p2'', ''p4''] True]"
    by (simp add: singleListed_def serverWith_def)
  have c: "sameListing [serverWith ''A'' [''p1'', ''p2''] True, serverWith ''B'' [''p3''] True]
     [serverWith ''B'' [''p3''] True, serverWith ''A'' [''p2'', ''p1''] True]"
    by (simp add: sameListing_def listed_def serverWith_def)
  have d: "sameListing [serverWith ''A'' [''p1''] True, serverWith ''B'' [''p2'', ''p4''] True]
     [serverWith ''B'' [''p4'', ''p2''] True, serverWith ''A'' [''p1''] True]"
    by (simp add: sameListing_def listed_def serverWith_def)
  show ?thesis using a b c d diff_order_independent [OF a b c d, of botConfig] by simp
qed

text \<open>
  C8 as stated fails when a player is listed on two servers of one generation: on the
  first snapshot, with \<open>p\<close> listed on \<open>A\<close> and on \<open>B\<close>, the join is reported for the
  server visited last, so the two orders of the servers give different event sets.
\<close>

theorem listed_twice_order_counterexample:
  "presenceDiff botConfig None [serverWith ''A'' [''p''] True, serverWith ''B'' [''p''] True] =
     [NotifyMessage ''B'' ''p'' True] \<and>
   presenceDiff botConfig None [serverWith ''B'' [''p''] True, serverWith ''A'' [''p''] True] =
     [NotifyMessage ''A'' ''p'' True] \<and>
   set (presenceDiff botConfig None
          [serverWith ''A'' [''p''] True, serverWith ''B'' [''p''] True]) \<noteq>
   set (presenceDiff botConfig None
          [serverWith ''B'' [''p''] True, serverWith ''A'' [''p''] True])"
  by (simp add: presenceDiff_def botConfig_def serverWith_def)

section \<open>Properties of the status publisher\<close>

subsection \<open>The rendered payload\<close>

lemma Title_serverEmbed: "Title (serverEmbed k i) = k"
  by (simp add: serverEmbed_def Let_def)

lemma serverEmbed_unreachable:
  "\<not> Reachable i \<Longrightarrow>
   serverEmbed k i = \<lparr>Title = k, Description = ''Server unreachable'', Color = 0xc1121f\<rparr>"
  by (simp add: serverEmbed_def Let_def)

lemma serverEmbeds_filter:
  "distinct keys \<Longrightarrow> map_of m k = Some i \<Longrightarrow>
   filter (\<lambda>e. Title e = k) (serverEmbeds m keys) =
     (if k \<in> set keys then [serverEmbed k i] else [])"
proof (induction m keys rule: serverEmbeds.induct)
  case (1 m)
  then show ?case by simp
next
  case (2 m serverName keys)
  then show ?case
    by (cases "map_of m serverName") (auto simp: Title_serverEmbed)
qed

text \<open>
  C10. For every server of the status map (a Go map: its keys are distinct) whose
  snapshot has \<open>Reachable = false\<close>, the payload holds exactly one block titled with
  the server's name, and that block is the unreachable marker in red, whatever the
  snapshot's player list: neither the players nor the "no players" marker are shown.
\<close>

theorem unreachable_takes_precedence:
  assumes "distinct (map fst serverStatusMap)"
    and "(serverName, serverInfo) \<in> set serverStatusMap"
    and "\<not> Reachable serverInfo"
  shows "filter (\<lambda>e. Title e = serverName) (Embeds (statusPayload serverStatusMap)) =
           [\<lparr>Title = serverName, Description = ''Server unreachable'', Color = 0xc1121f\<rparr>]"
proof -
  have m: "map_of serverStatusMap serverName = Some serverInfo"
    using assms(1,2) by simp
  have d: "distinct (sort (map fst serverStatusMap))" using assms(1) by simp
  have k: "serverName \<in> set (sort (map fst serverStatusMap))" using assms(2) by force
  show ?thesis
    using serverEmbeds_filter [OF d m] k assms(3)
    by (simp add: statusPayload_def serverEmbed_unreachable)
qed

theorem unreachable_takes_precedence_witness:
  "distinct (map fst [serverWith ''B'' [''p1'', ''p2''] False, serverWith ''A'' [] True]) \<and>
   serverWith ''B'' [''p1'', ''p2''] False
     \<in> set [serverWith ''B'' [''p1'', ''p2''] False, serverWith ''A'' [] True] \<and>
   \<not> Reachable (snd (serverWith ''B'' [''p1'', ''p2''] False)) \<and>
   filter (\<lambda>e. Title e = ''B'')
     (Embeds (statusPayload [serverWith ''B'' [''p1'', ''p2''] False, serverWith ''A'' [] True])) =
     [\<lparr>Title = ''B'', Description = ''Server unreachable'', Color = 0xc1121f\<rparr>] \<and>
   statusPayload [serverWith ''B'' [''p1'', ''p2''] False, serverWith ''A'' [] True] =
     \<lparr>Content = ''# Online players'',
      Embeds = [\<lparr>Title = ''A'', Description = ''No players online'', Color = 0x57F287\<rparr>,
                \<lparr>Title = ''B'', Description = ''Server unreachable'', Color = 0xc1121f\<rparr>]\<rparr>"
proof -
  let ?m = "[serverWith ''B'' [''p1'', ''p2''] False, serverWith ''A'' [] True]"
  let ?i = "\<lparr>ServerName = ''B'', Players = [''p1'', ''p2''], Reachable = False\<rparr>"
  have d: "distinct (map fst ?m)" by (simp add: serverWith_def)
  have i: "(''B'', ?i) \<in> set ?m" by (simp add: serverWith_def)
  have r: "\<not> Reachable ?i" by simp
  have s: "sort [''B'', ''A''] = [''A'', ''B'']" by simp
  have p: "statusPayload ?m =
     \<lparr>Content = ''# Online players'',
      Embeds = [\<lparr>Title = ''A'', Description = ''No players online'', Color = 0x57F287\<rparr>,
                \<lparr>Title = ''B'', Description = ''Server unreachable'', Color = 0xc1121f\<rparr>]\<rparr>"
    by (simp add: statusPayload_def serverWith_def s serverEmbed_def)
  show ?thesis
    using d i r p unreachable_takes_precedence [OF d i r] by (simp add: serverWith_def)
qed

subsection \<open>Which message is updated\<close>

lemma firstStatusMessage_split:
  "\<forall>b \<in> set before. \<not> isStatusMessage userID b \<Longrightarrow> isStatusMessage userID found \<Longrightarrow>
   firstStatusMessage userID (before @ found # after) = Some found"
  by (induction before) auto

text \<open>
  C4, as the code has it. With a known identifier the publisher fetches that message
  and never searches the channel: when the fetch succeeds it edits the fetched message,
  and its only later call is the optional pin; when the fetch fails, it makes no
  further call and returns the failure to its caller, with an empty identifier. Only
  without a known identifier does it read the 100 most recent messages of the channel;
  the first of them authored by the bot and containing the title marker is the one it
  edits, again followed only by the optional pin.
\<close>

theorem publisher_resolution:
  "(existingMessageId \<noteq> [] \<longrightarrow>
      fst (fetchExistingMessage cfg session userID existingMessageId) =
        [CallChannelMessage (ChannelIDStatus cfg) existingMessageId] \<and>
      (\<forall>err. ChannelMessage session (ChannelIDStatus cfg) existingMessageId = Inl err \<longrightarrow>
         updatePlayerList cfg session userID existingMessageId serverStatusMap =
           ([CallChannelMessage (ChannelIDStatus cfg) existingMessageId], [],
            Some (''fetchExistingMessage: '' @ err))) \<and>
      (\<forall>fetched. ChannelMessage session (ChannelIDStatus cfg) existingMessageId = Inr fetched \<longrightarrow>
         fst (updatePlayerList cfg session userID existingMessageId serverStatusMap) =
           [CallChannelMessage (ChannelIDStatus cfg) existingMessageId,
            CallChannelMessageEditComplex
              \<lparr>EditID = MsgID fetched, EditChannel = ChannelIDStatus cfg,
               EditContent = ''# Online players'',
               EditEmbeds = Embeds (statusPayload serverStatusMap)\<rparr>]
           @ (case ChannelMessageEditComplex session
                     \<lparr>EditID = MsgID fetched, EditChannel = ChannelIDStatus cfg,
                      EditContent = ''# Online players'',
                      EditEmbeds = Embeds (statusPayload serverStatusMap)\<rparr> of
                Inl err \<Rightarrow> []
              | Inr edited \<Rightarrow>
                  if PinPlayerList cfg
                  then [CallChannelMessagePin (ChannelIDStatus cfg) (MsgID edited)] else []))) \<and>
   (\<forall>before found after.
      ChannelMessages session (ChannelIDStatus cfg) 100 = Inr (before @ found # after) \<and>
      (\<forall>b \<in> set before. \<not> isStatusMessage userID b) \<and> isStatusMessage userID found \<longrightarrow>
      fst (updatePlayerList cfg session userID [] serverStatusMap) =
        [CallChannelMessages (ChannelIDStatus cfg) 100,
         CallChannelMessageEditComplex
           \<lparr>EditID = MsgID found, EditChannel = ChannelIDStatus cfg,
            EditContent = ''# Online players'',
            EditEmbeds = Embeds (statusPayload serverStatusMap)\<rparr>]
        @ (case ChannelMessageEditComplex session
                  \<lparr>EditID = MsgID found, EditChannel = ChannelIDStatus cfg,
                   EditContent = ''# Online players'',
                   EditEmbeds = Embeds (statusPayload serverStatusMap)\<rparr> of
             Inl err \<Rightarrow> []
           | Inr edited \<Rightarrow>
               if PinPlayerList cfg
               then [CallChannelMessagePin (ChannelIDStatus cfg) (MsgID edited)] else []))"
proof -
  let ?ch = "ChannelIDStatus cfg"
  let ?edit = "\<lambda>m. \<lparr>EditID = MsgID m, EditChannel = ?ch, EditContent = ''# Online players'',
                     EditEmbeds = Embeds (statusPayload serverStatusMap)\<rparr>"
  let ?tail = "\<lambda>m. case ChannelMessageEditComplex session (?edit m) of
                     Inl err \<Rightarrow> []
                   | Inr edited \<Rightarrow>
                       if PinPlayerList cfg then [CallChannelMessagePin ?ch (MsgID edited)] else []"
  have content: "Content (statusPayload serverStatusMap) = ''# Online players''"
    by (simp add: statusPayload_def)
  have edits: "fst (updatePlayerList cfg session userID messageId serverStatusMap) =
      calls @ [CallChannelMessageEditComplex (?edit m)] @ ?tail m"
    if "fetchExistingMessage cfg session userID messageId = (calls, Inr (Some m))"
    for messageId calls m
    using that
    by (simp add: updatePlayerList_def Let_def content pinAndReturn_def
        split: sum.splits option.splits)
  have direct: "fst (fetchExistingMessage cfg session userID existingMessageId) =
      [CallChannelMessage ?ch existingMessageId]"
    if "existingMessageId \<noteq> []"
    using that by (simp add: fetchExistingMessage_def)
  have failure: "updatePlayerList cfg session userID existingMessageId serverStatusMap =
      ([CallChannelMessage ?ch existingMessageId], [], Some (''fetchExistingMessage: '' @ err))"
    if "existingMessageId \<noteq> []" "ChannelMessage session ?ch existingMessageId = Inl err"
    for err
    using that by (simp add: updatePlayerList_def fetchExistingMessage_def Let_def)
  have success: "fst (updatePlayerList cfg session userID existingMessageId serverStatusMap) =
      [CallChannelMessage ?ch existingMessageId, CallChannelMessageEditComplex (?edit fetched)]
      @ ?tail fetched"
    if "existingMessageId \<noteq> []" "ChannelMessage session ?ch existingMessageId = Inr fetched"
    for fetched
  proof -
    have "fetchExistingMessage cfg session userID existingMessageId =
        ([CallChannelMessage ?ch existingMessageId], Inr (Some fetched))"
      using that by (simp add: fetchExistingMessage_def)
    from edits [OF this] show ?thesis by simp
  qed
  have search: "fst (updatePlayerList cfg session userID [] serverStatusMap) =
      [CallChannelMessages ?ch 100, CallChannelMessageEditComplex (?edit found)] @ ?tail found"
    if "ChannelMessages session ?ch 100 = Inr (before @ found # after) \<and>
        (\<forall>b \<in> set before. \<not> isStatusMessage userID b) \<and> isStatusMessage userID found"
    for before found after
  proof -
    have "firstStatusMessage userID (before @ found # after) = Some found"
      using that by (simp add: firstStatusMessage_split)
    then have "fetchExistingMessage cfg session userID [] =
        ([CallChannelMessages ?ch 100], Inr (Some found))"
      using that by (simp add: fetchExistingMessage_def)
    from edits [OF this] show ?thesis by simp
  qed
  show ?thesis
    using direct failure success search by (intro conjI impI allI) blast+
qed

theorem publisher_resolution_witness:
  "fst (fetchExistingMessage botConfig staleSession ''bot'' ''42'') =
     [CallChannelMessage ''status'' ''42''] \<and>
   updatePlayerList botConfig staleSession ''bot'' ''42'' [] =
     ([CallChannelMessage ''status'' ''42''], [],
      Some ''fetchExistingMessage: HTTP 404 Not Found'') \<and>
   fst (updatePlayerList botConfig liveSession ''bot'' ''42'' []) =
     [CallChannelMessage ''status'' ''42'',
      CallChannelMessageEditComplex
        \<lparr>EditID = ''42'', EditChannel = ''status'', EditContent = ''# Online players'',
         EditEmbeds = []\<rparr>] \<and>
   fst (updatePlayerList botConfig staleSession ''bot'' [] []) =
     [CallChannelMessages ''status'' 100,
      CallChannelMessageEditComplex
        \<lparr>EditID = ''7'', EditChannel = ''status'', EditContent = ''# Online players'',
         EditEmbeds = []\<rparr>]"
proof -
  have n: "''42'' \<noteq> []" by simp
  have e: "ChannelMessage staleSession (ChannelIDStatus botConfig) ''42'' =
      Inl ''HTTP 404 Not Found''"
    by (simp add: staleSession_def)
  have g: "ChannelMessage liveSession (ChannelIDStatus botConfig) ''42'' = Inr pinnedMessage"
    by (simp add: liveSession_def)
  have l: "ChannelMessages staleSession (ChannelIDStatus botConfig) 100 =
      Inr ([chatMessage] @ statusMessage # [])"
    by (simp add: staleSession_def)
  have b: "\<forall>b \<in> set [chatMessage]. \<not> isStatusMessage ''bot'' b"
    by (simp add: isStatusMessage_def chatMessage_def)
  have f: "isStatusMessage ''bot'' statusMessage"
    by (simp add: isStatusMessage_def statusMessage_def)
  have p: "Embeds (statusPayload []) = []" by (simp add: statusPayload_def)
  have c: "ChannelIDStatus botConfig = ''status''" "\<not> PinPlayerList botConfig"
    by (simp_all add: botConfig_def)
  note stale = publisher_resolution [of "''42''" botConfig staleSession "''bot''" "[]"]
  note live = publisher_resolution [of "''42''" botConfig liveSession "''bot''" "[]"]
  have first: "fst (fetchExistingMessage botConfig staleSession ''bot'' ''42'') =
     [CallChannelMessage ''status'' ''42'']"
    using stale n by (simp add: c)
  have second: "updatePlayerList botConfig staleSession ''bot'' ''42'' [] =
     ([CallChannelMessage ''status'' ''42''], [],
      Some ''fetchExistingMessage: HTTP 404 Not Found'')"
    using stale n e by (simp add: c)
  have "fst (updatePlayerList botConfig liveSession ''bot'' ''42'' []) =
     [CallChannelMessage (ChannelIDStatus botConfig) ''42'',
      CallChannelMessageEditComplex
        \<lparr>EditID = MsgID pinnedMessage, EditChannel = ChannelIDStatus botConfig,
         EditContent = ''# Online players'', EditEmbeds = Embeds (statusPayload [])\<rparr>]
     @ (case ChannelMessageEditComplex liveSession
               \<lparr>EditID = MsgID pinnedMessage, EditChannel = ChannelIDStatus botConfig,
                EditContent = ''# Online players'', EditEmbeds = Embeds (statusPayload [])\<rparr> of
          Inl err \<Rightarrow> []
        | Inr edited \<Rightarrow>
            if PinPlayerList botConfig
            then [CallChannelMessagePin (ChannelIDStatus botConfig) (MsgID edited)] else [])"
    using live n g by blast
  then have third: "fst (updatePlayerList botConfig liveSession ''bot'' ''42'' []) =
     [CallChannelMessage ''status'' ''42'',
      CallChannelMessageEditComplex
        \<lparr>EditID = ''42'', EditChannel = ''status'', EditContent = ''# Online players'',
         EditEmbeds = []\<rparr>]"
    by (simp add: p c pinnedMessage_def liveSession_def)
  have "fst (updatePlayerList botConfig staleSession ''bot'' [] []) =
     [CallChannelMessages (ChannelIDStatus botConfig) 100,
      CallChannelMessageEditComplex
        \<lparr>EditID = MsgID statusMessage, EditChannel = ChannelIDStatus botConfig,
         EditContent = ''# Online players'', EditEmbeds = Embeds (statusPayload [])\<rparr>]
     @ (case ChannelMessageEditComplex staleSession
               \<lparr>EditID = MsgID statusMessage, EditChannel = ChannelIDStatus botConfig,
                EditContent = ''# Online players'', EditEmbeds = Embeds (statusPayload [])\<rparr> of
          Inl err \<Rightarrow> []
        | Inr edited \<Rightarrow>
            if PinPlayerList botConfig
            then [CallChannelMessagePin (ChannelIDStatus botConfig) (MsgID edited)] else [])"
    using stale l b f by blast
  then have fourth: "fst (updatePlayerList botConfig staleSession ''bot'' [] []) =
     [CallChannelMessages ''status'' 100,
      CallChannelMessageEditComplex
        \<lparr>EditID = ''7'', EditChannel = ''status'', EditContent = ''# Online players'',
         EditEmbeds = []\<rparr>]"
    by (simp add: p c statusMessage_def staleSession_def)
  show ?thesis using first second third fourth by simp
qed

text \<open>
  C4 as stated fails when the fetch by identifier fails: on a service where message
  \<open>42\<close> is gone and the channel still holds a status message of the bot, the publisher
  makes the fetch and nothing else, neither search nor edit, and returns the error.
\<close>

theorem fetch_failure_returned_counterexample:
  "ChannelMessage staleSession ''status'' ''42'' = Inl ''HTTP 404 Not Found'' \<and>
   ChannelMessages staleSession ''status'' 100 = Inr [chatMessage, statusMessage] \<and>
   isStatusMessage ''bot'' statusMessage \<and>
   updatePlayerList botConfig staleSession ''bot'' ''42'' [] =
     ([CallChannelMessage ''status'' ''42''], [],
      Some ''fetchExistingMessage: HTTP 404 Not Found'')"
  by (simp add: updatePlayerList_def fetchExistingMessage_def Let_def staleSession_def
      botConfig_def isStatusMessage_def statusMessage_def)

text \<open>
  After such a round the loop of \<open>Start\<close> holds the empty identifier, so it is the next
  round that searches the channel.
\<close>

lemma failed_fetch_clears_identifier:
  assumes "loopMessageId st \<noteq> []"
    and "ChannelMessage session (ChannelIDStatus cfg) (loopMessageId st) = Inl err"
  shows "loopMessageId (snd (startRound cfg session st ifos)) = []"
  using assms
  by (simp add: startRound_def updatePlayerList_def fetchExistingMessage_def Let_def)

section \<open>Properties of startup\<close>




section \<open>Properties of duration formatting\<close>

subsection \<open>Rounding to a double\<close>

lemma ilog2_le:
  assumes "0 < x"
  shows "2 powi (ilog2 x) \<le> x"
proof -
  obtain a b where q: "quotient_of x = (a, b)" by (cases "quotient_of x")
  then have b: "0 < b" by (rule quotient_of_denom_pos)
  have x: "x = of_int a / of_int b" using q by (rule quotient_of_div)
  have a: "0 < a" using assms b unfolding x by (simp add: zero_less_divide_iff)
  let ?e = "bitlen a - bitlen b"
  show ?thesis
  proof (cases "2 powi ?e \<le> x")
    case True
    then show ?thesis by (simp add: ilog2_def q)
  next
    case False
    have la: "1 \<le> bitlen a" using a bitlen_eq_zero_iff [of a] bitlen_nonneg [of a] by linarith
    have lb: "1 \<le> bitlen b" using b bitlen_eq_zero_iff [of b] bitlen_nonneg [of b] by linarith
    have na: "(2::rat) ^ nat (bitlen a - 1) \<le> of_int a"
    proof -
      have "(2::int) ^ nat (bitlen a - 1) \<le> a" using bitlen_bounds [OF a] by simp
      then have "of_int ((2::int) ^ nat (bitlen a - 1)) \<le> (of_int a :: rat)"
        by (simp only: of_int_le_iff)
      then show ?thesis by simp
    qed
    have nb: "of_int b \<le> (2::rat) ^ nat (bitlen b)"
    proof -
      have "b \<le> (2::int) ^ nat (bitlen b)" using bitlen_bounds [OF b] by simp
      then have "(of_int b :: rat) \<le> of_int ((2::int) ^ nat (bitlen b))"
        by (simp only: of_int_le_iff)
      then show ?thesis by simp
    qed
    have "(2::rat) powi (?e - 1) = 2 powi (bitlen a - 1) / 2 powi (bitlen b)"
      by (simp add: power_int_diff)
    also have "\<dots> = 2 ^ nat (bitlen a - 1) / 2 ^ nat (bitlen b)"
      using la lb by (simp add: power_int_nonneg_exp)
    also have "\<dots> \<le> of_int a / of_int b"
      using na nb b a by (intro frac_le) simp_all
    finally have "(2::rat) powi (?e - 1) \<le> x" by (simp add: x)
    with False show ?thesis by (simp add: ilog2_def q)
  qed
qed

lemma ilog2_less_next:
  assumes "0 < x"
  shows "x < 2 powi (ilog2 x + 1)"
proof -
  obtain a b where q: "quotient_of x = (a, b)" by (cases "quotient_of x")
  then have b: "0 < b" by (rule quotient_of_denom_pos)
  have x: "x = of_int a / of_int b" using q by (rule quotient_of_div)
  have a: "0 < a" using assms b unfolding x by (simp add: zero_less_divide_iff)
  let ?e = "bitlen a - bitlen b"
  show ?thesis
  proof (cases "2 powi ?e \<le> x")
    case True
    have la: "0 \<le> bitlen a" by (rule bitlen_nonneg)
    have lb: "1 \<le> bitlen b" using b bitlen_eq_zero_iff [of b] bitlen_nonneg [of b] by linarith
    have na: "of_int a < (2::rat) ^ nat (bitlen a)"
    proof -
      have "a < (2::int) ^ nat (bitlen a)" using bitlen_bounds [OF a] by simp
      then have "(of_int a :: rat) < of_int ((2::int) ^ nat (bitlen a))"
        by (simp only: of_int_less_iff)
      then show ?thesis by simp
    qed
    have nb: "(2::rat) ^ nat (bitlen b - 1) \<le> of_int b"
    proof -
      have "(2::int) ^ nat (bitlen b - 1) \<le> b" using bitlen_bounds [OF b] by simp
      then have "of_int ((2::int) ^ nat (bitlen b - 1)) \<le> (of_int b :: rat)"
        by (simp only: of_int_le_iff)
      then show ?thesis by simp
    qed
    have "of_int a / of_int b < (2::rat) ^ nat (bitlen a) / 2 ^ nat (bitlen b - 1)"
      using na nb a b by (intro frac_less) simp_all
    also have "\<dots> = 2 powi (bitlen a) / 2 powi (bitlen b - 1)"
      using la lb by (simp add: power_int_nonneg_exp)
    also have "\<dots> = 2 powi (bitlen a - (bitlen b - 1))"
      by (simp only: power_int_diff [of "2::rat" "bitlen a" "bitlen b - 1", simplified])
    also have "\<dots> = 2 powi (?e + 1)"
      by (simp add: algebra_simps)
    finally have "x < 2 powi (?e + 1)" unfolding x .
    moreover have "ilog2 x = ?e" using True by (simp add: ilog2_def q)
    ultimately show ?thesis by (simp only:)
  next
    case False
    then show ?thesis by (simp add: ilog2_def q)
  qed
qed

lemma ilog2_less:
  assumes "0 < x" "x < 2 ^ n"
  shows "ilog2 x < int n"
proof -
  have "(2::rat) powi (ilog2 x) < 2 powi (int n)"
    using ilog2_le [OF assms(1)] assms(2) by simp
  then show ?thesis by (rule power_int_le_imp_less_exp [rotated]) simp_all
qed

lemma roundEven_ge: "of_int k \<le> x \<Longrightarrow> k \<le> roundEven x"
proof -
  assume "of_int k \<le> x"
  then have "k \<le> \<lfloor>x\<rfloor>" by (simp add: le_floor_iff)
  then show ?thesis by (simp add: roundEven_def Let_def)
qed

lemma roundEven_less:
  assumes "x < of_int k - 1 / 2"
  shows "roundEven x < k"
proof -
  have f: "of_int \<lfloor>x\<rfloor> \<le> x" by simp
  show ?thesis
  proof (cases "x - of_int \<lfloor>x\<rfloor> < 1 / 2")
    case True
    have "of_int \<lfloor>x\<rfloor> < (of_int k :: rat)" using f assms by linarith
    then have "\<lfloor>x\<rfloor> < k" by simp
    with True show ?thesis by (simp add: roundEven_def Let_def)
  next
    case False
    then have "of_int \<lfloor>x\<rfloor> + 1 < (of_int k :: rat)" using assms by linarith
    then have "of_int (\<lfloor>x\<rfloor> + 1) < (of_int k :: rat)" by simp
    then have "\<lfloor>x\<rfloor> + 1 < k" by (simp only: of_int_less_iff)
    then show ?thesis by (simp add: roundEven_def Let_def)
  qed
qed

lemma roundEven_error: "\<bar>of_int (roundEven x) - x\<bar> \<le> 1 / 2"
proof -
  have "of_int \<lfloor>x\<rfloor> \<le> x" "x < of_int \<lfloor>x\<rfloor> + 1" by linarith+
  then show ?thesis by (auto simp: roundEven_def Let_def)
qed

lemma roundEven_of_int: "roundEven (of_int k) = k"
  by (simp add: roundEven_def)

lemma float64_pos:
  "0 < x \<Longrightarrow> float64 x = of_int (roundEven (x / 2 powi (ilog2 x - 52))) * 2 powi (ilog2 x - 52)"
  by (simp add: float64_def Let_def)

lemma float64_of_int:
  assumes "0 \<le> n" "n < 2 ^ 53"
  shows "float64 (of_int n) = of_int n"
proof (cases "n = 0")
  case True
  then show ?thesis by (simp add: float64_def)
next
  case False
  with assms have pos: "0 < (of_int n :: rat)" by simp
  have "(of_int n :: rat) < of_int (2 ^ 53)" using assms(2) by (simp only: of_int_less_iff)
  then have "(of_int n :: rat) < 2 ^ 53" by simp
  then have e: "ilog2 (of_int n) < 53" using ilog2_less [OF pos, of 53] by simp
  define P :: int where "P = 2 ^ nat (52 - ilog2 (of_int n))"
  have q: "(2::rat) powi (ilog2 (of_int n) - 52) = 1 / of_int P"
  proof -
    have "(2::rat) powi (ilog2 (of_int n) - 52) = 1 / 2 powi (52 - ilog2 (of_int n))"
      using power_int_minus_divide [of "2::rat" "52 - ilog2 (of_int n)"] by simp
    also have "\<dots> = 1 / 2 ^ nat (52 - ilog2 (of_int n))"
      using e by (simp add: power_int_nonneg_exp)
    finally show ?thesis by (simp add: P_def)
  qed
  have P: "0 < P" by (simp add: P_def)
  have "float64 (of_int n) = of_int (roundEven (of_int n / (1 / of_int P))) * (1 / of_int P)"
    using float64_pos [OF pos] by (simp only: q)
  also have "of_int n / (1 / of_int P) = (of_int (n * P) :: rat)" by simp
  also have "roundEven (of_int (n * P)) = n * P" by (rule roundEven_of_int)
  finally show ?thesis using P by simp
qed

lemma float64_fraction:
  assumes "0 \<le> x" "x < 1"
  shows "0 \<le> float64 x \<and> float64 x \<le> x + 2 powi (- 54)"
proof (cases "x = 0")
  case True
  then show ?thesis by (simp add: float64_def)
next
  case False
  with assms have pos: "0 < x" by simp
  have "x < 2 ^ 0" using assms(2) by simp
  then have e: "ilog2 x < 0" using ilog2_less [OF pos, of 0] by simp
  define q :: rat where "q = 2 powi (ilog2 x - 52)"
  have q0: "0 < q" by (simp add: q_def)
  have q1: "q \<le> 2 powi (- 53)"
    unfolding q_def using e by (intro power_int_increasing) simp_all
  define R where "R = roundEven (x / q)"
  have fl: "float64 x = of_int R * q" using float64_pos [OF pos] by (simp add: q_def R_def)
  have "0 \<le> x / q" using pos q0 by simp
  then have "of_int 0 \<le> x / q" by simp
  then have R0: "0 \<le> R" unfolding R_def by (rule roundEven_ge)
  have "\<bar>of_int R - x / q\<bar> \<le> 1 / 2" unfolding R_def by (rule roundEven_error)
  then have "of_int R - x / q \<le> 1 / 2" by linarith
  then have "(of_int R - x / q) * q \<le> (1 / 2) * q" using q0 by (simp only: mult_le_cancel_right) simp
  then have "of_int R * q - x \<le> q / 2" using q0 by (simp add: algebra_simps)
  moreover have "q / 2 \<le> 2 powi (- 54)"
  proof -
    have "q / 2 \<le> 2 powi (- 53) / 2" using q1 by simp
    also have "\<dots> = 2 powi (- 54)" by (simp add: power_int_minus_divide)
    finally show ?thesis .
  qed
  ultimately have "of_int R * q \<le> x + 2 powi (- 54)" by linarith
  moreover have "0 \<le> of_int R * q" using R0 q0 by simp
  ultimately show ?thesis by (simp add: fl)
qed

lemma floor_float64_sum:
  fixes h :: int and y :: rat and n :: nat
  assumes "0 \<le> h" "0 \<le> y" "of_int h + y < 2 ^ n" "n \<le> 52"
    and "2 powi (int n - 54) < 1 - y"
  shows "\<lfloor>float64 (of_int h + y)\<rfloor> = h"
proof (cases "of_int h + y = 0")
  case True
  have "(of_int h :: rat) \<le> 0" using True assms(2) by linarith
  then have "h \<le> 0" by simp
  with assms(1) have "h = 0" by simp
  with True show ?thesis by (simp add: float64_def)
next
  case False
  define x where "x = of_int h + y"
  have hx: "(of_int h :: rat) \<le> x" using assms(2) by (simp add: x_def)
  have "(0::rat) \<le> of_int h" using assms(1) by simp
  with False assms(2) have pos: "0 < x" unfolding x_def by linarith
  have e: "ilog2 x < int n" using ilog2_less [OF pos] assms(3) by (simp add: x_def)
  define m where "m = nat (52 - ilog2 x)"
  define P :: int where "P = 2 ^ m"
  have m: "int m = 52 - ilog2 x" using e assms(4) by (simp add: m_def)
  have P: "0 < P" by (simp add: P_def)
  have q: "(2::rat) powi (ilog2 x - 52) = 1 / of_int P"
  proof -
    have "(2::rat) powi (ilog2 x - 52) = 1 / 2 powi (52 - ilog2 x)"
      using power_int_minus_divide [of "2::rat" "52 - ilog2 x"] by simp
    also have "\<dots> = 1 / 2 powi (int m)" by (simp only: m)
    finally show ?thesis by (simp add: P_def)
  qed
  define R where "R = roundEven (x * of_int P)"
  have fl: "float64 x = of_int R / of_int P"
    using float64_pos [OF pos] by (simp add: q R_def)
  have "of_int (h * P) \<le> x * of_int P" using hx P by simp
  then have lo: "h * P \<le> R" unfolding R_def by (rule roundEven_ge)
  have half: "1 / 2 < (1 - y) * of_int P"
  proof -
    have "int n - 54 + int m \<ge> - 1" using e m by linarith
    then have "(2::rat) powi (- 1) \<le> 2 powi (int n - 54 + int m)"
      by (intro power_int_increasing) simp_all
    also have "\<dots> = 2 powi (int n - 54) * 2 powi (int m)"
      by (simp add: power_int_add)
    also have "\<dots> = 2 powi (int n - 54) * of_int P" by (simp add: P_def)
    also have "\<dots> < (1 - y) * of_int P" using assms(5) P by simp
    finally show ?thesis by (simp add: power_int_minus_divide)
  qed
  have "x * of_int P = of_int ((h + 1) * P) - (1 - y) * of_int P"
    by (simp add: x_def algebra_simps)
  then have "x * of_int P < of_int ((h + 1) * P) - 1 / 2" using half by linarith
  then have hi: "R < (h + 1) * P" unfolding R_def by (rule roundEven_less)
  have "of_int h \<le> (of_int R :: rat) / of_int P"
  proof -
    have "(of_int (h * P) :: rat) \<le> of_int R" using lo by (simp only: of_int_le_iff)
    then show ?thesis using P by (simp add: pos_le_divide_eq)
  qed
  moreover have "(of_int R :: rat) / of_int P < of_int h + 1"
  proof -
    have "(of_int R :: rat) < of_int ((h + 1) * P)" using hi by (simp only: of_int_less_iff)
    then show ?thesis using P by (simp add: pos_divide_less_eq)
  qed
  ultimately have "\<lfloor>(of_int R :: rat) / of_int P\<rfloor> = h" by (simp add: floor_unique)
  then show ?thesis by (simp add: fl x_def [symmetric])
qed


subsection \<open>The counts of whole hours and minutes\<close>

lemma goDiv_nonneg: "0 \<le> a \<Longrightarrow> 0 < b \<Longrightarrow> goDiv a b = a div b"
  by (cases "a = 0") (simp_all add: goDiv_def)

lemma goMod_nonneg: "0 \<le> a \<Longrightarrow> 0 < b \<Longrightarrow> goMod a b = a mod b"
  by (simp add: goMod_def goDiv_nonneg minus_mult_div_eq_mod)

lemma count_exact:
  fixes D U :: int and n :: nat
  assumes D: "0 \<le> D" and U: "0 < U" "U < 2 ^ 53" and n: "n \<le> 52" "D < 2 ^ n * U"
    and gap: "(2::rat) powi (int n - 54) + 2 powi (- 54) < 1 / of_int U"
  shows "truncInt (float64 (float64 (of_int (goDiv D U))
           + float64 (float64 (of_int (goMod D U)) / of_int U))) = D div U"
proof -
  define h where "h = D div U"
  define r where "r = D mod U"
  have h0: "0 \<le> h" using D U by (simp add: h_def pos_imp_zdiv_nonneg_iff)
  have hn: "h < 2 ^ n"
  proof -
    have e: "U * (D div U) + D mod U = D" by (rule mult_div_mod_eq)
    have m: "0 \<le> D mod U" using U by simp
    have "U * (D div U) < U * 2 ^ n"
      using e m n(2) unfolding mult.commute [of "2 ^ n" U] by linarith
    then show ?thesis using U(1) unfolding h_def by (simp only: mult_less_cancel_left_pos)
  qed
  have r0: "0 \<le> r" "r < U" using U by (simp_all add: r_def)
  have "(2::int) ^ n \<le> 2 ^ 52" using n(1) by (intro power_increasing) simp_all
  then have h53: "h < 2 ^ 53" using hn by simp
  have r53: "r < 2 ^ 53" using r0 U by simp
  define y where "y = float64 (of_int r / of_int U)"
  have f0: "(0::rat) \<le> of_int r / of_int U" using r0 U by simp
  have f1: "(of_int r :: rat) / of_int U \<le> 1 - 1 / of_int U"
  proof -
    have "r \<le> U - 1" using r0 by simp
    then have "(of_int r :: rat) \<le> of_int (U - 1)" by (simp only: of_int_le_iff)
    then have "(of_int r :: rat) / of_int U \<le> of_int (U - 1) / of_int U"
      using U by (simp add: divide_right_mono)
    also have "\<dots> = 1 - 1 / of_int U" using U by (simp add: field_simps)
    finally show ?thesis .
  qed
  have "(0::rat) < 1 / of_int U" using U by simp
  then have f2: "(of_int r :: rat) / of_int U < 1" using f1 by linarith
  have y: "0 \<le> y" "y \<le> of_int r / of_int U + 2 powi (- 54)"
    using float64_fraction [OF f0 f2] by (simp_all add: y_def)
  have p: "(0::rat) < 2 powi (int n - 54)" by simp
  have y1: "2 powi (int n - 54) < 1 - y" using y(2) f1 gap by linarith
  then have ylt: "y < 1" using p by linarith
  have "h \<le> 2 ^ n - 1" using hn by simp
  then have "(of_int h :: rat) \<le> of_int (2 ^ n - 1)" by (simp only: of_int_le_iff)
  then have sum: "of_int h + y < 2 ^ n" using ylt by simp
  have fl: "\<lfloor>float64 (of_int h + y)\<rfloor> = h"
    using h0 y(1) sum n(1) y1 by (rule floor_float64_sum)
  have nonneg: "0 \<le> float64 (of_int h + y)"
  proof -
    have "of_int h \<le> float64 (of_int h + y)" using fl by (simp add: floor_eq_iff)
    moreover have "(0::rat) \<le> of_int h" using h0 by simp
    ultimately show ?thesis by linarith
  qed
  have g: "goDiv D U = h" "goMod D U = r"
    using D U by (simp_all add: goDiv_nonneg goMod_nonneg h_def r_def)
  have a: "float64 (of_int h) = of_int h" using h0 h53 by (rule float64_of_int)
  have b: "float64 (of_int r) = of_int r" using r0(1) r53 by (rule float64_of_int)
  have "truncInt (float64 (float64 (of_int h) + float64 (float64 (of_int r) / of_int U))) = h"
    unfolding a b using fl nonneg by (simp add: truncInt_def y_def)
  then show ?thesis by (simp only: g h_def)
qed

lemma Hours_exact:
  assumes "0 \<le> sint d" "sint d < 4096 * Hour"
  shows "truncInt (Hours d) = sint d div Hour"
proof -
  have gap: "(2::rat) powi (int 12 - 54) + 2 powi (- 54) < 1 / of_int Hour"
    by (simp add: Hour_def Minute_def power_int_minus_divide)
  have U: "0 < Hour" "Hour < 2 ^ 53" by (simp_all add: Hour_def Minute_def)
  have n: "(12::nat) \<le> 52" "sint d < 2 ^ 12 * Hour" using assms(2) by simp_all
  have "truncInt (float64 (float64 (of_int (goDiv (sint d) Hour))
           + float64 (float64 (of_int (goMod (sint d) Hour)) / of_int Hour))) = sint d div Hour"
    using assms(1) U n gap by (rule count_exact)
  then show ?thesis by (simp add: Hours_def Let_def Hour_def Minute_def)
qed

lemma Minutes_exact:
  assumes "0 \<le> sint d" "sint d < 262144 * Minute"
  shows "truncInt (Minutes d) = sint d div Minute"
proof -
  have gap: "(2::rat) powi (int 18 - 54) + 2 powi (- 54) < 1 / of_int Minute"
    by (simp add: Minute_def power_int_minus_divide)
  have U: "0 < Minute" "Minute < 2 ^ 53" by (simp_all add: Minute_def)
  have n: "(18::nat) \<le> 52" "sint d < 2 ^ 18 * Minute" using assms(2) by simp_all
  have "truncInt (float64 (float64 (of_int (goDiv (sint d) Minute))
           + float64 (float64 (of_int (goMod (sint d) Minute)) / of_int Minute))) = sint d div Minute"
    using assms(1) U n gap by (rule count_exact)
  then show ?thesis by (simp add: Minutes_def Let_def Minute_def)
qed

lemma FormatDuration_negative: "sint d < 0 \<Longrightarrow> FormatDuration d lang = []"
  by (simp add: FormatDuration_def)

lemma FormatDuration_below_4096_hours:
  assumes "0 \<le> sint d" "sint d < 4096 * Hour"
  shows "FormatDuration d lang = spanText (unitsFor lang) (sint d)"
proof -
  have m: "sint d < 262144 * Minute" using assms(2) by (simp add: Hour_def Minute_def)
  have H: "truncInt (Hours d) = sint d div Hour" using assms by (rule Hours_exact)
  have M: "truncInt (Minutes d) = sint d div Minute" using assms(1) m by (rule Minutes_exact)
  have h0: "0 \<le> sint d div Hour" using assms(1) by (simp add: Hour_def Minute_def pos_imp_zdiv_nonneg_iff)
  have m0: "0 \<le> sint d div Minute" using assms(1) by (simp add: Minute_def pos_imp_zdiv_nonneg_iff)
  have days: "sint d div Hour div 24 = sint d div (24 * Hour)"
    using zdiv_zmult2_eq [of 24 "sint d" Hour] by (simp add: mult.commute)
  have d1: "1 \<le> sint d div (24 * Hour) \<longleftrightarrow> 24 * Hour \<le> sint d"
    by (simp add: Hour_def Minute_def) linarith
  have h1: "1 \<le> sint d div Hour \<longleftrightarrow> Hour \<le> sint d"
    by (simp add: Hour_def Minute_def) linarith
  show ?thesis
    using assms(1)
    by (simp add: FormatDuration_def Let_def H M goDiv_nonneg goMod_nonneg h0 m0 days d1 h1
        spanText_def unitsFor_def)
qed

text \<open>
  The values the specification lists: 90 minutes, no time at all, minus five minutes,
  25 hours and 24 hours.
\<close>

lemma FormatDuration_listed_values:
  "FormatDuration (90 * 60000000000) English = ''1 hour 30 minutes'' \<and>
   FormatDuration 0 English = ''0 minutes'' \<and>
   FormatDuration (- (5 * 60000000000)) English = [] \<and>
   FormatDuration (25 * 3600000000000) English = ''1 day 1 hour'' \<and>
   FormatDuration (24 * 3600000000000) English = ''1 day''"
  by code_simp

text \<open>
  C9 fails on the code at a span of 4104 hours less one nanosecond, that is 170 days,
  23 hours, 59 minutes and 59.999999999 seconds. \<open>Hours\<close> adds 4103 and the double
  nearest to 3599999999999 / 3600000000000; doubles from 4096 on are \<open>2 ^ - 40\<close> apart,
  so the sum rounds to 4104, and \<open>FormatDuration\<close> reports 171 days with no hours,
  where the day count of the span is 170 and the hours left over are 23.
\<close>

theorem FormatDuration_rounds_up_to_next_day:
  "sint (4104 * 3600000000000 - 1 :: Duration) = 4104 * Hour - 1 \<and>
   (4104 * Hour - 1) div (24 * Hour) = 170 \<and>
   (4104 * Hour - 1) div Hour mod 24 = 23 \<and>
   Hours (4104 * 3600000000000 - 1) = 4104 \<and>
   FormatDuration (4104 * 3600000000000 - 1) English = ''171 days'' \<and>
   spanText (unitsFor English) (4104 * Hour - 1) = ''170 days 23 hours''"
  by code_simp

end
